theory Spec2Isabelle
  imports Main "HOL-Library.Word" "HOL-Library.Sublist"
begin

section \<open>Go values and run-time failures\<close>

text \<open>
  A Go \<open>string\<close> and a Go \<open>[]byte\<close> are both sequences of bytes; both are modelled as
  \<open>char list\<close> (an Isabelle \<open>char\<close> is one byte). Slice capacities are not modelled:
  \<open>append\<close> yields the same bytes whether or not it reallocates, and the one slice
  expression of the package whose upper bound is checked against the capacity
  (\<open>txt[inspos:ns]\<close> in \<open>splice\<close>) comes after \<open>txt[ns:]\<close>, which has already
  required \<open>ns \<le> len(txt)\<close>.

  Index arithmetic (\<open>inspos\<close>, \<open>msgpos\<close>, \<open>n\<close>, \<open>maxlevels\<close>) is done on \<open>int\<close>:
  the values involved are lengths of slices that exist in memory and stack depths,
  which are far below \<open>2 ^ 63\<close>. Values that are formatted (the arguments of \<open>Int\<close>,
  \<open>Int8\<close>, ..., \<open>Uint64\<close>, and the rune \<open>lvl\<close>) are machine words of the
  declared width; Go's \<open>int\<close> is taken to be 64 bits wide.

  A panic ends the computation: a function that can panic returns \<open>Inl\<close> of the
  panic, or \<open>Inr\<close> of its result.
\<close>

type_synonym bytes = "char list"

datatype panic =
    SliceBoundsOutOfRange
  | IndexOutOfRange
  | NilDereference

text \<open>The slice expression \<open>s[lo:hi]\<close>; it panics unless \<open>0 \<le> lo \<le> hi \<le> len(s)\<close>.\<close>

definition subslice :: "'a list \<Rightarrow> int \<Rightarrow> int \<Rightarrow> panic + 'a list" where
  "subslice s lo hi =
     (if 0 \<le> lo \<and> lo \<le> hi \<and> hi \<le> int (length s)
      then Inr (take (nat hi - nat lo) (drop (nat lo) s))
      else Inl SliceBoundsOutOfRange)"

text \<open>
  The builtin \<open>copy(dst, src)\<close> where \<open>dst\<close> is the window of the array \<open>s\<close> that starts
  at \<open>off\<close> and is \<open>dlen\<close> elements long. It copies \<open>min(len(dst), len(src))\<close> elements
  and is correct for overlapping arguments (the source is read as it was before the
  call), so the model takes \<open>src\<close> as a value.
\<close>

definition copy_at :: "'a list \<Rightarrow> nat \<Rightarrow> nat \<Rightarrow> 'a list \<Rightarrow> 'a list" where
  "copy_at s off dlen src =
     (let k = min dlen (length src)
      in take off s @ take k src @ drop (off + k) s)"

text \<open>The index expression \<open>s[i]\<close>.\<close>

definition index_at :: "'a list \<Rightarrow> int \<Rightarrow> panic + 'a" where
  "index_at s i =
     (if 0 \<le> i \<and> i < int (length s) then Inr (s ! nat i) else Inl IndexOutOfRange)"

text \<open>The assignment \<open>s[i] = v\<close>.\<close>

definition assign_at :: "'a list \<Rightarrow> int \<Rightarrow> 'a \<Rightarrow> panic + 'a list" where
  "assign_at s i v =
     (if 0 \<le> i \<and> i < int (length s) then Inr (s[nat i := v]) else Inl IndexOutOfRange)"

section \<open>The message splicer\<close>

text \<open>
  \<^verbatim>\<open>
  func splice(txt []byte, ins []byte, inspos int) []byte {
      ns := inspos + len(ins)
      txt = append(txt, ins...)
      copy(txt[ns:], txt[inspos:len(txt)-1])
      copy(txt[inspos:ns], ins)
      return txt
  }
  \<close>
\<close>

text \<open>The function \<open>splice\<close> is \<open>splice'\<close> here (\<open>splice\<close> is a function on lists in HOL).\<close>

definition splice' :: "bytes \<Rightarrow> bytes \<Rightarrow> int \<Rightarrow> panic + bytes" where
  "splice' txt0 ins inspos =
     (let ns = inspos + int (length ins);
          txt1 = txt0 @ ins
      in case subslice txt1 ns (int (length txt1)) of
           Inl p \<Rightarrow> Inl p
         | Inr dst1 \<Rightarrow>
             (case subslice txt1 inspos (int (length txt1) - 1) of
                Inl p \<Rightarrow> Inl p
              | Inr src1 \<Rightarrow>
                  (let txt2 = copy_at txt1 (nat ns) (length dst1) src1
                   in case subslice txt2 inspos ns of
                        Inl p \<Rightarrow> Inl p
                      | Inr dst2 \<Rightarrow> Inr (copy_at txt2 (nat inspos) (length dst2) ins))))"

section \<open>Library functions the package calls\<close>

subsection \<open>Ranging over a string\<close>

text \<open>
  \<open>for i, c := range path\<close> visits the string rune by rune: at byte index \<open>i\<close> a byte
  below \<open>0x80\<close> is the rune itself and the index advances by one; otherwise the run-time
  function \<open>decoderune\<close> decodes a UTF-8 sequence of two to four bytes, or yields
  \<open>RuneError\<close> and advances by one byte when the bytes are not a valid encoding.
\<close>

definition byte_at :: "bytes \<Rightarrow> nat \<Rightarrow> nat" where
  "byte_at s i = of_char (s ! i)"

definition is_cont :: "nat \<Rightarrow> bool" where
  "is_cont b = (0x80 \<le> b \<and> b \<le> 0xBF)"

definition runeError :: nat where
  "runeError = 0xFFFD"

definition decoderune :: "bytes \<Rightarrow> nat \<Rightarrow> nat \<times> nat" where
  "decoderune s k =
     (if length s \<le> k then (runeError, k + 1)
      else
        (let t = drop k s; s0 = byte_at t 0
         in if 0xC0 \<le> s0 \<and> s0 < 0xE0 then
              (if 1 < length t \<and> is_cont (byte_at t 1) then
                 (let r = (s0 mod 32) * 64 + byte_at t 1 mod 64
                  in if 0x7F < r then (r, k + 2) else (runeError, k + 1))
               else (runeError, k + 1))
            else if 0xE0 \<le> s0 \<and> s0 < 0xF0 then
              (if 2 < length t \<and> is_cont (byte_at t 1) \<and> is_cont (byte_at t 2) then
                 (let r = (s0 mod 16) * 4096 + (byte_at t 1 mod 64) * 64 + byte_at t 2 mod 64
                  in if 0x7FF < r \<and> \<not> (0xD800 \<le> r \<and> r \<le> 0xDFFF) then (r, k + 3)
                     else (runeError, k + 1))
               else (runeError, k + 1))
            else if 0xF0 \<le> s0 \<and> s0 < 0xF8 then
              (if 3 < length t \<and> is_cont (byte_at t 1) \<and> is_cont (byte_at t 2)
                    \<and> is_cont (byte_at t 3) then
                 (let r = (s0 mod 8) * 262144 + (byte_at t 1 mod 64) * 4096
                            + (byte_at t 2 mod 64) * 64 + byte_at t 3 mod 64
                  in if 0xFFFF < r \<and> r \<le> 0x10FFFF then (r, k + 4) else (runeError, k + 1))
               else (runeError, k + 1))
            else (runeError, k + 1)))"

text \<open>One step of the \<open>range\<close> loop at index \<open>i < len(s)\<close>: the rune and the next index.\<close>

definition range_step :: "bytes \<Rightarrow> nat \<Rightarrow> nat \<times> nat" where
  "range_step s i =
     (if byte_at s i < 0x80 then (byte_at s i, i + 1) else decoderune s i)"

subsection \<open>Converting a rune to a string\<close>

text \<open>
  \<open>string(lvl)\<close> for a rune \<open>lvl\<close> is its UTF-8 encoding (\<open>encoderune\<close> on
  \<open>uint32(lvl)\<close>); values that are not code points become \<open>U+FFFD\<close>.
\<close>

definition string_of_rune :: "32 word \<Rightarrow> bytes" where
  "string_of_rune r =
     (let i = unat r
      in if i \<le> 0x7F then [char_of i]
         else if i \<le> 0x7FF then [char_of (0xC0 + i div 64), char_of (0x80 + i mod 64)]
         else if 0x10FFFF < i \<or> (0xD800 \<le> i \<and> i \<le> 0xDFFF) then
           [char_of (0xEF :: nat), char_of (0xBF :: nat), char_of (0xBD :: nat)]
         else if i \<le> 0xFFFF then
           [char_of (0xE0 + i div 4096), char_of (0x80 + (i div 64) mod 64),
            char_of (0x80 + i mod 64)]
         else
           [char_of (0xF0 + i div 262144), char_of (0x80 + (i div 4096) mod 64),
            char_of (0x80 + (i div 64) mod 64), char_of (0x80 + i mod 64)])"

subsection \<open>Decimal and hexadecimal text\<close>

text \<open>
  \<open>strconv.AppendUint(dst, u, 10)\<close>, \<open>strconv.AppendInt(dst, i, 10)\<close> and
  \<open>strconv.Itoa(i)\<close>: decimal digits, most significant first, no leading zero, a
  \<open>-\<close> for a negative value.
\<close>

definition digit_char :: "nat \<Rightarrow> char" where
  "digit_char d = char_of (48 + d)"

fun digits10 :: "nat \<Rightarrow> bytes" where
  "digits10 n = (if n < 10 then [digit_char n] else digits10 (n div 10) @ [digit_char (n mod 10)])"

declare digits10.simps [simp del]

definition FormatInt :: "int \<Rightarrow> bytes" where
  "FormatInt i = (if i < 0 then CHR ''-'' # digits10 (nat (- i)) else digits10 (nat i))"

definition AppendUint :: "bytes \<Rightarrow> 64 word \<Rightarrow> bytes" where
  "AppendUint dst u = dst @ digits10 (unat u)"

definition AppendInt :: "bytes \<Rightarrow> 64 word \<Rightarrow> bytes" where
  "AppendInt dst i = dst @ FormatInt (sint i)"

definition Itoa :: "64 word \<Rightarrow> bytes" where
  "Itoa i = FormatInt (sint i)"

text \<open>\<open>hex.EncodeToString\<close>: two lower-case digits per byte.\<close>

definition hextable :: bytes where
  "hextable = ''0123456789abcdef''"

definition EncodeToString :: "bytes \<Rightarrow> bytes" where
  "EncodeToString src =
     concat (map (\<lambda>v. [hextable ! (of_char v div 16), hextable ! (of_char v mod 16)]) src)"

subsection \<open>The call stack\<close>

text \<open>
  \<open>runtime.Caller(skip)\<close> reports the file and line of the frame \<open>skip\<close> levels above
  its caller, and \<open>ok = false\<close> (with zero values) when there is no such frame. The
  stack is the list of frames seen from the function that calls \<open>runtime.Caller\<close>,
  innermost first.
\<close>

type_synonym frame = "bytes \<times> 64 word"

definition runtime_Caller :: "frame list \<Rightarrow> int \<Rightarrow> bytes \<times> 64 word \<times> bool" where
  "runtime_Caller stack skip =
     (if 0 \<le> skip \<and> skip < int (length stack)
      then (fst (stack ! nat skip), snd (stack ! nat skip), True)
      else ([], 0, False))"

subsection \<open>What is left to the environment\<close>

text \<open>
  The clock, float formatting, \<open>fmt.Sprintf\<close> and \<open>runtime.GOROOT\<close> are parameters.
  A \<open>float64\<close> and a \<open>float32\<close> are their IEEE bit patterns; \<open>float64_of_float32\<close>
  is the conversion \<open>float64(f)\<close>, and \<open>AppendFloat f fmt prec bitSize\<close> is the text
  \<open>strconv.AppendFloat\<close> appends. \<open>Now_AppendFormat utc layout\<close> is the text of
  \<open>time.Now().AppendFormat\<close> (after \<open>.UTC()\<close> when \<open>utc\<close>).
\<close>

typedecl go_value

record runtime =
  Now_AppendFormat :: "bool \<Rightarrow> bytes \<Rightarrow> bytes"
  AppendFloat :: "64 word \<Rightarrow> char \<Rightarrow> int \<Rightarrow> nat \<Rightarrow> bytes"
  float64_of_float32 :: "32 word \<Rightarrow> 64 word"
  Sprintf :: "bytes \<Rightarrow> go_value list \<Rightarrow> bytes"
  GOROOT :: bytes

section \<open>Loggers, events and the world they write to\<close>

text \<open>
  An \<open>io.Writer\<close> is identified by a number; the nil interface value is \<open>None\<close>.
  A \<open>*Event\<close> is an \<open>Event option\<close>, the nil pointer being \<open>None\<close>. A method with
  a pointer receiver mutates the event in place and returns the same pointer; the
  model returns the updated event. The \<open>Closer\<close> callback of a Logger only closes
  files and is left out.
\<close>

type_synonym writer = nat

record Logger =
  ErrorWriter :: "writer option"
  InfoWriter :: "writer option"
  DebugWriter :: "writer option"
  Timestamp :: bytes
  UTC :: bool
  MaxCallLevels :: int
  IncludeSystemFiles :: bool
  ErrorTag :: bytes
  WarnTag :: bytes
  InfoTag :: bytes
  DebugTag :: bytes
  KeyStart :: bytes
  KeyEnd :: bytes

record Event =
  txtbuf :: bytes
  tag :: bytes
  keyStart :: bytes
  keyEnd :: bytes
  msgpos :: int
  callLevels :: int
  withSystem :: bool
  out :: "writer option"

text \<open>The field \<open>txt\<close> of the source is \<open>txtbuf\<close> here (\<open>txt\<close> is a keyword).\<close>

text \<open>
  The world: every \<open>Write\<close> call made so far (destination and bytes, in order) and the
  events held by \<open>eventPool\<close>. \<open>Write\<close>'s result is ignored by the package.
\<close>

record world =
  written :: "(writer \<times> bytes) list"
  pooled :: "Event list"

text \<open>The pool's \<open>New\<close> function: an event with an empty buffer and zero fields.\<close>

definition pool_New :: Event where
  "pool_New = \<lparr>txtbuf = [], tag = [], keyStart = [], keyEnd = [], msgpos = 0,
               callLevels = 0, withSystem = False, out = None\<rparr>"

definition pool_Get :: "world \<Rightarrow> Event \<times> world" where
  "pool_Get w = (case pooled w of
                   [] \<Rightarrow> (pool_New, w)
                 | e # es \<Rightarrow> (e, w\<lparr>pooled := es\<rparr>))"

definition pool_Put :: "Event \<Rightarrow> world \<Rightarrow> world" where
  "pool_Put e w = w\<lparr>pooled := e # pooled w\<rparr>"

text \<open>
  \<^verbatim>\<open>
  func (l *Logger) newEvent(w io.Writer, tag []byte) *Event {
      if w == nil { return nil }
      e := eventPool.Get().(*Event)
      e.keyStart = l.KeyStart
      e.keyEnd = l.KeyEnd
      e.out = w
      e.txt = e.txt[:0]
      if l.Timestamp != "" {
          if l.UTC { e.txt = time.Now().UTC().AppendFormat(e.txt, l.Timestamp)
          } else { e.txt = time.Now().AppendFormat(e.txt, l.Timestamp) }
      }
      e.txt = append(e.txt, tag...)
      e.msgpos = len(e.txt)
      e.callLevels = l.MaxCallLevels
      e.withSystem = l.IncludeSystemFiles
      return e
  }
  \<close>
  The field \<open>tag\<close> of the event is never assigned: it keeps what the pooled event had.
\<close>

definition newEvent :: "runtime \<Rightarrow> Logger \<Rightarrow> writer option \<Rightarrow> bytes \<Rightarrow> world
                          \<Rightarrow> Event option \<times> world" where
  "newEvent rt l w tg s =
     (case w of
        None \<Rightarrow> (None, s)
      | Some _ \<Rightarrow>
          (case pool_Get s of
             (e0, s1) \<Rightarrow>
               (let e1 = e0\<lparr>keyStart := KeyStart l, keyEnd := KeyEnd l, out := w, txtbuf := []\<rparr>;
                    e2 = (if Timestamp l \<noteq> []
                          then e1\<lparr>txtbuf := txtbuf e1 @ Now_AppendFormat rt (UTC l) (Timestamp l)\<rparr>
                          else e1);
                    e3 = e2\<lparr>txtbuf := txtbuf e2 @ tg\<rparr>;
                    e4 = e3\<lparr>msgpos := int (length (txtbuf e3)),
                            callLevels := MaxCallLevels l,
                            withSystem := IncludeSystemFiles l\<rparr>
                in (Some e4, s1))))"

definition Debug :: "runtime \<Rightarrow> Logger \<Rightarrow> world \<Rightarrow> Event option \<times> world" where
  "Debug rt l s = newEvent rt l (DebugWriter l) (DebugTag l) s"

definition Info :: "runtime \<Rightarrow> Logger \<Rightarrow> world \<Rightarrow> Event option \<times> world" where
  "Info rt l s = newEvent rt l (InfoWriter l) (InfoTag l) s"

definition Warn :: "runtime \<Rightarrow> Logger \<Rightarrow> world \<Rightarrow> Event option \<times> world" where
  "Warn rt l s = newEvent rt l (ErrorWriter l) (WarnTag l) s"

definition Error :: "runtime \<Rightarrow> Logger \<Rightarrow> world \<Rightarrow> Event option \<times> world" where
  "Error rt l s = newEvent rt l (ErrorWriter l) (ErrorTag l) s"

section \<open>The field encoder\<close>

text \<open>
  \<^verbatim>\<open>
  func (e *Event) appendKey(key string) {
      e.txt = append(e.txt, e.keyStart...)
      e.txt = append(e.txt, []byte(key)...)
      e.txt = append(e.txt, e.keyEnd...)
      e.txt = append(e.txt, '=')
  }

  func (e *Event) Str(key string, value string) *Event {
      if e == nil { return e }
      e.appendKey(key)
      e.txt = append(e.txt, []byte(value)...)
      e.txt = append(e.txt, ' ')
      return e
  }
  \<close>
  \<open>appendKey\<close> has no nil check; every caller has checked the receiver. The other
  setters follow \<open>Str\<close>: the nil check first, then either a call of \<open>Str\<close> with the
  rendered value, or \<open>appendKey\<close>, the value and a space.
\<close>

definition appendKey :: "Event \<Rightarrow> bytes \<Rightarrow> Event" where
  "appendKey e key =
     (let e1 = e\<lparr>txtbuf := txtbuf e @ keyStart e\<rparr>;
          e2 = e1\<lparr>txtbuf := txtbuf e1 @ key\<rparr>;
          e3 = e2\<lparr>txtbuf := txtbuf e2 @ keyEnd e2\<rparr>
      in e3\<lparr>txtbuf := txtbuf e3 @ [CHR ''='']\<rparr>)"

definition Str :: "Event option \<Rightarrow> bytes \<Rightarrow> bytes \<Rightarrow> Event option" where
  "Str ev key val =
     (case ev of
        None \<Rightarrow> None
      | Some e \<Rightarrow>
          (let e1 = appendKey e key;
               e2 = e1\<lparr>txtbuf := txtbuf e1 @ val\<rparr>
           in Some (e2\<lparr>txtbuf := txtbuf e2 @ [CHR '' '']\<rparr>)))"

definition Bool :: "Event option \<Rightarrow> bytes \<Rightarrow> bool \<Rightarrow> Event option" where
  "Bool ev key val =
     (case ev of
        None \<Rightarrow> None
      | Some _ \<Rightarrow> (if val then Str ev key ''true'' else Str ev key ''false''))"

definition Bytes :: "Event option \<Rightarrow> bytes \<Rightarrow> bytes \<Rightarrow> Event option" where
  "Bytes ev key val =
     (case ev of
        None \<Rightarrow> None
      | Some _ \<Rightarrow> Str ev key (EncodeToString val))"

text \<open>An \<open>error\<close> value is \<open>None\<close> for nil and otherwise the text of its \<open>Error()\<close>.\<close>

definition Err :: "Event option \<Rightarrow> bytes option \<Rightarrow> Event option" where
  "Err ev err =
     (case ev of
        None \<Rightarrow> None
      | Some _ \<Rightarrow>
          (case err of
             None \<Rightarrow> Str ev ''@error'' ''nil''
           | Some m \<Rightarrow> Str ev ''@error'' m))"

definition Float32 :: "runtime \<Rightarrow> Event option \<Rightarrow> bytes \<Rightarrow> 32 word \<Rightarrow> Event option" where
  "Float32 rt ev key f =
     (case ev of
        None \<Rightarrow> None
      | Some e \<Rightarrow>
          (let e1 = appendKey e key;
               e2 = e1\<lparr>txtbuf := txtbuf e1 @ AppendFloat rt (float64_of_float32 rt f) CHR ''G'' (- 1) 32\<rparr>
           in Some (e2\<lparr>txtbuf := txtbuf e2 @ [CHR '' '']\<rparr>)))"

definition Float64 :: "runtime \<Rightarrow> Event option \<Rightarrow> bytes \<Rightarrow> 64 word \<Rightarrow> Event option" where
  "Float64 rt ev key f =
     (case ev of
        None \<Rightarrow> None
      | Some e \<Rightarrow>
          (let e1 = appendKey e key;
               e2 = e1\<lparr>txtbuf := txtbuf e1 @ AppendFloat rt f CHR ''G'' (- 1) 32\<rparr>
           in Some (e2\<lparr>txtbuf := txtbuf e2 @ [CHR '' '']\<rparr>)))"

text \<open>The method \<open>Int\<close> is \<open>Int'\<close> here (\<open>Int\<close> is the ASCII notation of set intersection).\<close>

definition Int' :: "Event option \<Rightarrow> bytes \<Rightarrow> 64 word \<Rightarrow> Event option" where
  "Int' ev key val =
     (case ev of
        None \<Rightarrow> None
      | Some _ \<Rightarrow> Str ev key (Itoa val))"

text \<open>
  The sized integer setters all have one shape: \<open>appendKey\<close>, then \<open>AppendUint\<close> of
  \<open>uint64(value)\<close> or \<open>AppendInt\<close> of \<open>int64(value)\<close>, then a space.
\<close>

definition append_unsigned :: "Event option \<Rightarrow> bytes \<Rightarrow> 64 word \<Rightarrow> Event option" where
  "append_unsigned ev key u =
     (case ev of
        None \<Rightarrow> None
      | Some e \<Rightarrow>
          (let e1 = appendKey e key;
               e2 = e1\<lparr>txtbuf := AppendUint (txtbuf e1) u\<rparr>
           in Some (e2\<lparr>txtbuf := txtbuf e2 @ [CHR '' '']\<rparr>)))"

definition append_signed :: "Event option \<Rightarrow> bytes \<Rightarrow> 64 word \<Rightarrow> Event option" where
  "append_signed ev key i =
     (case ev of
        None \<Rightarrow> None
      | Some e \<Rightarrow>
          (let e1 = appendKey e key;
               e2 = e1\<lparr>txtbuf := AppendInt (txtbuf e1) i\<rparr>
           in Some (e2\<lparr>txtbuf := txtbuf e2 @ [CHR '' '']\<rparr>)))"

definition Uint8 :: "Event option \<Rightarrow> bytes \<Rightarrow> 8 word \<Rightarrow> Event option" where
  "Uint8 ev key val = append_unsigned ev key (ucast val)"

definition Int8 :: "Event option \<Rightarrow> bytes \<Rightarrow> 8 word \<Rightarrow> Event option" where
  "Int8 ev key val = append_signed ev key (scast val)"

definition Uint16 :: "Event option \<Rightarrow> bytes \<Rightarrow> 16 word \<Rightarrow> Event option" where
  "Uint16 ev key val = append_unsigned ev key (ucast val)"

definition Int16 :: "Event option \<Rightarrow> bytes \<Rightarrow> 16 word \<Rightarrow> Event option" where
  "Int16 ev key val = append_signed ev key (scast val)"

definition Uint32 :: "Event option \<Rightarrow> bytes \<Rightarrow> 32 word \<Rightarrow> Event option" where
  "Uint32 ev key val = append_unsigned ev key (ucast val)"

definition Int32 :: "Event option \<Rightarrow> bytes \<Rightarrow> 32 word \<Rightarrow> Event option" where
  "Int32 ev key val = append_signed ev key (scast val)"

definition Uint64 :: "Event option \<Rightarrow> bytes \<Rightarrow> 64 word \<Rightarrow> Event option" where
  "Uint64 ev key val = append_unsigned ev key val"

definition Int64 :: "Event option \<Rightarrow> bytes \<Rightarrow> 64 word \<Rightarrow> Event option" where
  "Int64 ev key val = append_signed ev key val"

text \<open>
  A \<open>time.Time\<close> argument is given by what its \<open>MarshalText()\<close> returns: \<open>Inr\<close> the
  text, or \<open>Inl\<close> the text of the error (which is what \<open>%v\<close> prints).
\<close>

definition Time :: "Event option \<Rightarrow> bytes \<Rightarrow> bytes + bytes \<Rightarrow> Event option" where
  "Time ev key val =
     (case ev of
        None \<Rightarrow> None
      | Some e \<Rightarrow>
          (let e1 = appendKey e key;
               tv = (case val of
                       Inr t \<Rightarrow> t
                     | Inl err \<Rightarrow> ''error marshaling time: '' @ err);
               e2 = e1\<lparr>txtbuf := txtbuf e1 @ tv\<rparr>
           in Some (e2\<lparr>txtbuf := txtbuf e2 @ [CHR '' '']\<rparr>)))"

section \<open>The call-frame capturer\<close>

text \<open>
  \<^verbatim>\<open>
  func abbreviate(path string) string {
      var ls, ps int
      for i, c := range path {
          if c == '/' { ps = ls; ls = i }
      }
      if path[ps] == '/' { ps++ }
      return path[ps:]
  }
  \<close>
  The loop state is \<open>(ls, ps)\<close>.
\<close>

lemma if_cases2: "(c \<Longrightarrow> P a) \<Longrightarrow> (\<not> c \<Longrightarrow> P b) \<Longrightarrow> P (if c then a else b)"
  by simp

lemma decoderune_next: "k < snd (decoderune s k) \<and> snd (decoderune s k) \<le> k + 4"
  unfolding decoderune_def Let_def
  by (intro if_cases2 [where P = "\<lambda>x. k < snd x \<and> snd x \<le> k + 4"]; simp only: snd_conv; simp)

lemma range_step_next: "i < snd (range_step s i)"
  using decoderune_next [of i s] by (simp add: range_step_def)

function abbreviate_loop :: "bytes \<Rightarrow> nat \<Rightarrow> int \<Rightarrow> int \<Rightarrow> int \<times> int" where
  "abbreviate_loop path i ls ps =
     (if i < length path then
        (if fst (range_step path i) = 0x2F
         then abbreviate_loop path (snd (range_step path i)) (int i) ls
         else abbreviate_loop path (snd (range_step path i)) ls ps)
      else (ls, ps))"
  by pat_completeness auto
termination
proof (relation "measure (\<lambda>(path, i, ls, ps). length path - i)")
  show "wf (measure (\<lambda>(path, i, ls, ps). length path - i))" by simp
next
  fix path :: bytes and i :: nat and ls ps :: int
  assume "i < length path"
  then show "((path, snd (range_step path i), int i, ls), (path, i, ls, ps))
                     \<in> measure (\<lambda>(path, i, ls, ps). length path - i)"
    using range_step_next [of i path] by simp
next
  fix path :: bytes and i :: nat and ls ps :: int
  assume "i < length path"
  then show "((path, snd (range_step path i), ls, ps), (path, i, ls, ps))
                     \<in> measure (\<lambda>(path, i, ls, ps). length path - i)"
    using range_step_next [of i path] by simp
qed

declare abbreviate_loop.simps [simp del]

definition abbreviate :: "bytes \<Rightarrow> panic + bytes" where
  "abbreviate path =
     (case abbreviate_loop path 0 0 0 of
        (ls, ps) \<Rightarrow>
          (case index_at path ps of
             Inl p \<Rightarrow> Inl p
           | Inr c \<Rightarrow>
               (let ps1 = (if c = CHR ''/'' then ps + 1 else ps)
                in subslice path ps1 (int (length path)))))"

text \<open>
  The same loop taken byte by byte over the rest of the path, \<open>i\<close> being the index of
  its first byte. Lemma \<open>abbreviate_loop_scan\<close> shows that the rune-wise loop computes
  this: a \<open>/\<close> is never part of a longer rune.
\<close>

fun scan :: "bytes \<Rightarrow> nat \<Rightarrow> int \<Rightarrow> int \<Rightarrow> int \<times> int" where
  "scan [] i ls ps = (ls, ps)"
| "scan (c # cs) i ls ps =
     (if c = CHR ''/'' then scan cs (Suc i) (int i) ls else scan cs (Suc i) ls ps)"

definition blammoLevels :: int where
  "blammoLevels = 3"

text \<open>
  \<^verbatim>\<open>
  func (e *Event) writeCallStack(maxlevels int) *Event {
      if maxlevels == 0 { return e }
      goroot := runtime.GOROOT()
      n := 0; fn := ""; line := 0; ok := true; lvl := '0'; walo := false
      for ok && n < maxlevels {
          _, fn, line, ok = runtime.Caller(n+blammoLevels)
          if ok {
              if e.withSystem || !strings.HasPrefix(fn, goroot) {
                  e.Str("@file_"+string(lvl), abbreviate(fn))
                  e.Int("@line_"+string(lvl), line)
                  lvl++
                  walo = true
              }
          }
          n++
      }
      if !walo { e.Str("@file_0", "unavailable") }
      return e
  }
  \<close>
  The loop state is \<open>(n, ok, lvl, walo)\<close> and the event. Reading \<open>e.withSystem\<close>
  through a nil pointer panics; \<open>abbreviate(fn)\<close> is evaluated before \<open>e.Str\<close> runs.
\<close>

function writeCallStack_loop ::
  "bytes \<Rightarrow> frame list \<Rightarrow> int \<Rightarrow> int \<Rightarrow> bool \<Rightarrow> 32 word \<Rightarrow> bool \<Rightarrow> Event option
     \<Rightarrow> panic + (bool \<times> Event option)" where
  "writeCallStack_loop goroot stack maxlevels n ok lvl walo ev =
     (if ok \<and> n < maxlevels then
        (case runtime_Caller stack (n + blammoLevels) of
           (fn, line, ok1) \<Rightarrow>
             (if ok1 then
                (case ev of
                   None \<Rightarrow> Inl NilDereference
                 | Some e \<Rightarrow>
                     (if withSystem e \<or> \<not> prefix goroot fn then
                        (case abbreviate fn of
                           Inl p \<Rightarrow> Inl p
                         | Inr short \<Rightarrow>
                             (let ev1 = Str ev (''@file_'' @ string_of_rune lvl) short;
                                  ev2 = Int' ev1 (''@line_'' @ string_of_rune lvl) line
                              in writeCallStack_loop goroot stack maxlevels (n + 1) ok1
                                   (lvl + 1) True ev2))
                      else writeCallStack_loop goroot stack maxlevels (n + 1) ok1 lvl walo ev))
              else writeCallStack_loop goroot stack maxlevels (n + 1) ok1 lvl walo ev))
      else Inr (walo, ev))"
  by pat_completeness auto
termination
  by (relation "measure (\<lambda>(goroot, stack, maxlevels, n, ok, lvl, walo, ev). nat (maxlevels - n))")
     auto

declare writeCallStack_loop.simps [simp del]

definition writeCallStack :: "runtime \<Rightarrow> frame list \<Rightarrow> Event option \<Rightarrow> int
                                \<Rightarrow> panic + Event option" where
  "writeCallStack rt stack ev maxlevels =
     (if maxlevels = 0 then Inr ev
      else
        (case writeCallStack_loop (GOROOT rt) stack maxlevels 0 True 0x30 False ev of
           Inl p \<Rightarrow> Inl p
         | Inr (walo, ev1) \<Rightarrow>
             (if \<not> walo then Inr (Str ev1 ''@file_0'' ''unavailable'') else Inr ev1)))"

definition Line :: "runtime \<Rightarrow> frame list \<Rightarrow> Event option \<Rightarrow> panic + Event option" where
  "Line rt stack ev =
     (case ev of
        None \<Rightarrow> Inr None
      | Some _ \<Rightarrow> writeCallStack rt stack ev 1)"

definition Caller :: "runtime \<Rightarrow> frame list \<Rightarrow> Event option \<Rightarrow> panic + Event option" where
  "Caller rt stack ev =
     (case ev of
        None \<Rightarrow> Inr None
      | Some _ \<Rightarrow> writeCallStack rt stack ev 2)"

definition CallStack :: "runtime \<Rightarrow> frame list \<Rightarrow> Event option \<Rightarrow> panic + Event option" where
  "CallStack rt stack ev =
     (case ev of
        None \<Rightarrow> Inr None
      | Some e \<Rightarrow> writeCallStack rt stack ev (callLevels e))"

text \<open>
  The older variant of the capturer:
  \<^verbatim>\<open>
  func (e *Event) writeCaller(n int) *Event {
      _, fn, line, _ := runtime.Caller(n)
      if n == 3 {
          e.Int("@line", line)
          e.Str("@file", abbreviate(fn))
      } else {
          e.Int("@c_line", line)
          e.Str("@c_file", abbreviate(fn))
      }
      return e
  }
  \<close>
\<close>

definition writeCaller :: "frame list \<Rightarrow> Event option \<Rightarrow> int \<Rightarrow> panic + Event option" where
  "writeCaller stack ev n =
     (case runtime_Caller stack n of
        (fn, line, _) \<Rightarrow>
          (if n = 3 then
             (let ev1 = Int' ev ''@line'' line
              in case abbreviate fn of
                   Inl p \<Rightarrow> Inl p
                 | Inr short \<Rightarrow> Inr (Str ev1 ''@file'' short))
           else
             (let ev1 = Int' ev ''@c_line'' line
              in case abbreviate fn of
                   Inl p \<Rightarrow> Inl p
                 | Inr short \<Rightarrow> Inr (Str ev1 ''@c_file'' short))))"

section \<open>Finalizing an event\<close>

text \<open>
  \<^verbatim>\<open>
  func (e *Event) Msg(msg string) {
      if e == nil { return }
      bsx := []byte(msg + " ")
      e.txt = splice(e.txt, bsx, e.msgpos)
      e.txt[len(e.txt)-1] = '\n'
      e.out.Write(e.txt)
      eventPool.Put(e)
  }
  \<close>
  \<open>Msg\<close> has no result; the model returns the receiver as the caller still holds it
  (for a real event, the event as \<open>Msg\<close> left it) together with the new world.
\<close>

definition Msg :: "Event option \<Rightarrow> bytes \<Rightarrow> world \<Rightarrow> panic + (Event option \<times> world)" where
  "Msg ev msg s =
     (case ev of
        None \<Rightarrow> Inr (None, s)
      | Some e \<Rightarrow>
          (let bsx = msg @ '' ''
           in case splice' (txtbuf e) bsx (msgpos e) of
                Inl p \<Rightarrow> Inl p
              | Inr t1 \<Rightarrow>
                  (case assign_at t1 (int (length t1) - 1) (CHR 0x0A) of
                     Inl p \<Rightarrow> Inl p
                   | Inr t2 \<Rightarrow>
                       (let e1 = e\<lparr>txtbuf := t2\<rparr>
                        in case out e1 of
                             None \<Rightarrow> Inl NilDereference
                           | Some w \<Rightarrow>
                               Inr (Some e1,
                                    pool_Put e1 (s\<lparr>written := written s @ [(w, txtbuf e1)]\<rparr>))))))"

definition Msgf :: "runtime \<Rightarrow> Event option \<Rightarrow> bytes \<Rightarrow> go_value list \<Rightarrow> world
                      \<Rightarrow> panic + (Event option \<times> world)" where
  "Msgf rt ev fmtstr vals s =
     (case ev of
        None \<Rightarrow> Inr (None, s)
      | Some _ \<Rightarrow> Msg ev (Sprintf rt fmtstr vals) s)"

section \<open>Call chains\<close>

text \<open>
  A log statement is a chain of method calls on the event a Logger method returned.
  The calls are data here, so that statements about every sequence of calls can be
  made: the typed field setters, the three call-stack methods (each with the stack
  it is called on), and the two finalizers.
\<close>

datatype field_call =
    FStr bytes bytes
  | FBool bytes bool
  | FBytes bytes bytes
  | FErr "bytes option"
  | FFloat32 bytes "32 word"
  | FFloat64 bytes "64 word"
  | FInt bytes "64 word"
  | FUint8 bytes "8 word"
  | FInt8 bytes "8 word"
  | FUint16 bytes "16 word"
  | FInt16 bytes "16 word"
  | FUint32 bytes "32 word"
  | FInt32 bytes "32 word"
  | FUint64 bytes "64 word"
  | FInt64 bytes "64 word"
  | FTime bytes "bytes + bytes"

fun set_field :: "runtime \<Rightarrow> field_call \<Rightarrow> Event option \<Rightarrow> Event option" where
  "set_field rt (FStr k v) ev = Str ev k v"
| "set_field rt (FBool k v) ev = Bool ev k v"
| "set_field rt (FBytes k v) ev = Bytes ev k v"
| "set_field rt (FErr err) ev = Err ev err"
| "set_field rt (FFloat32 k f) ev = Float32 rt ev k f"
| "set_field rt (FFloat64 k f) ev = Float64 rt ev k f"
| "set_field rt (FInt k v) ev = Int' ev k v"
| "set_field rt (FUint8 k v) ev = Uint8 ev k v"
| "set_field rt (FInt8 k v) ev = Int8 ev k v"
| "set_field rt (FUint16 k v) ev = Uint16 ev k v"
| "set_field rt (FInt16 k v) ev = Int16 ev k v"
| "set_field rt (FUint32 k v) ev = Uint32 ev k v"
| "set_field rt (FInt32 k v) ev = Int32 ev k v"
| "set_field rt (FUint64 k v) ev = Uint64 ev k v"
| "set_field rt (FInt64 k v) ev = Int64 ev k v"
| "set_field rt (FTime k v) ev = Time ev k v"

datatype builder_call =
    Field field_call
  | CLine "frame list"
  | CCaller "frame list"
  | CCallStack "frame list"

fun build1 :: "runtime \<Rightarrow> builder_call \<Rightarrow> Event option \<Rightarrow> panic + Event option" where
  "build1 rt (Field f) ev = Inr (set_field rt f ev)"
| "build1 rt (CLine stack) ev = Line rt stack ev"
| "build1 rt (CCaller stack) ev = Caller rt stack ev"
| "build1 rt (CCallStack stack) ev = CallStack rt stack ev"

text \<open>A chain \<open>e.m1(...).m2(...)...\<close>: each method is called on what the one before returned.\<close>

fun build :: "runtime \<Rightarrow> builder_call list \<Rightarrow> Event option \<Rightarrow> panic + Event option" where
  "build rt [] ev = Inr ev"
| "build rt (b # bs) ev =
     (case build1 rt b ev of
        Inl p \<Rightarrow> Inl p
      | Inr ev1 \<Rightarrow> build rt bs ev1)"

datatype call =
    Builder builder_call
  | CMsg bytes
  | CMsgf bytes "go_value list"

text \<open>
  One invocation on the pointer \<open>ev\<close> in the world \<open>s\<close>: the pointer the caller holds
  afterwards (the method's result, or the receiver for \<open>Msg\<close> and \<open>Msgf\<close>, which
  return nothing) and the new world.
\<close>

fun invoke :: "runtime \<Rightarrow> call \<Rightarrow> Event option \<Rightarrow> world \<Rightarrow> panic + (Event option \<times> world)" where
  "invoke rt (Builder b) ev s =
     (case build1 rt b ev of
        Inl p \<Rightarrow> Inl p
      | Inr ev1 \<Rightarrow> Inr (ev1, s))"
| "invoke rt (CMsg msg) ev s = Msg ev msg s"
| "invoke rt (CMsgf fmtstr vals) ev s = Msgf rt ev fmtstr vals s"

fun invoke_all :: "runtime \<Rightarrow> call list \<Rightarrow> Event option \<Rightarrow> world
                     \<Rightarrow> panic + (Event option \<times> world)" where
  "invoke_all rt [] ev s = Inr (ev, s)"
| "invoke_all rt (c # cs) ev s =
     (case invoke rt c ev s of
        Inl p \<Rightarrow> Inl p
      | Inr (ev1, s1) \<Rightarrow> invoke_all rt cs ev1 s1)"

section \<open>The line format, as the specification words it\<close>

text \<open>
  A field is \<open>key-highlight-start + key + key-highlight-end + "=" + value + " "\<close>.
\<close>

definition field_text :: "bytes \<Rightarrow> bytes \<Rightarrow> bytes \<times> bytes \<Rightarrow> bytes" where
  "field_text ks ke kv = ks @ fst kv @ ke @ ''='' @ snd kv @ '' ''"

text \<open>The key and the rendered value of each typed setter (section 4.2).\<close>

fun field_key :: "field_call \<Rightarrow> bytes" where
  "field_key (FStr k v) = k"
| "field_key (FBool k v) = k"
| "field_key (FBytes k v) = k"
| "field_key (FErr err) = ''@error''"
| "field_key (FFloat32 k f) = k"
| "field_key (FFloat64 k f) = k"
| "field_key (FInt k v) = k"
| "field_key (FUint8 k v) = k"
| "field_key (FInt8 k v) = k"
| "field_key (FUint16 k v) = k"
| "field_key (FInt16 k v) = k"
| "field_key (FUint32 k v) = k"
| "field_key (FInt32 k v) = k"
| "field_key (FUint64 k v) = k"
| "field_key (FInt64 k v) = k"
| "field_key (FTime k v) = k"

fun field_value :: "runtime \<Rightarrow> field_call \<Rightarrow> bytes" where
  "field_value rt (FStr k v) = v"
| "field_value rt (FBool k v) = (if v then ''true'' else ''false'')"
| "field_value rt (FBytes k v) = EncodeToString v"
| "field_value rt (FErr err) = (case err of None \<Rightarrow> ''nil'' | Some m \<Rightarrow> m)"
| "field_value rt (FFloat32 k f) = AppendFloat rt (float64_of_float32 rt f) CHR ''G'' (- 1) 32"
| "field_value rt (FFloat64 k f) = AppendFloat rt f CHR ''G'' (- 1) 32"
| "field_value rt (FInt k v) = FormatInt (sint v)"
| "field_value rt (FUint8 k v) = digits10 (unat v)"
| "field_value rt (FInt8 k v) = FormatInt (sint v)"
| "field_value rt (FUint16 k v) = digits10 (unat v)"
| "field_value rt (FInt16 k v) = FormatInt (sint v)"
| "field_value rt (FUint32 k v) = digits10 (unat v)"
| "field_value rt (FInt32 k v) = FormatInt (sint v)"
| "field_value rt (FUint64 k v) = digits10 (unat v)"
| "field_value rt (FInt64 k v) = FormatInt (sint v)"
| "field_value rt (FTime k v) =
     (case v of Inr t \<Rightarrow> t | Inl err \<Rightarrow> ''error marshaling time: '' @ err)"

text \<open>
  The call-stack fields (section 4.3). The frames visited are those from
  \<open>blammoLevels\<close> up, at most \<open>maxlevels\<close> of them; a frame is emitted unless system
  frames are excluded and its file lies under the Go root. The emitted frames are
  numbered from the rune \<open>'0'\<close> up.
\<close>

definition visited_frames :: "frame list \<Rightarrow> int \<Rightarrow> frame list" where
  "visited_frames stack maxlevels = take (nat maxlevels) (drop (nat blammoLevels) stack)"

definition emitted_frames :: "bool \<Rightarrow> bytes \<Rightarrow> frame list \<Rightarrow> int \<Rightarrow> frame list" where
  "emitted_frames ws goroot stack maxlevels =
     filter (\<lambda>f. ws \<or> \<not> prefix goroot (fst f)) (visited_frames stack maxlevels)"

definition short_name :: "bytes \<Rightarrow> bytes" where
  "short_name fn = (case abbreviate fn of Inr s \<Rightarrow> s | Inl _ \<Rightarrow> [])"

fun frame_fields :: "32 word \<Rightarrow> frame list \<Rightarrow> (bytes \<times> bytes) list" where
  "frame_fields lvl [] = []"
| "frame_fields lvl (f # fs) =
     (''@file_'' @ string_of_rune lvl, short_name (fst f))
       # (''@line_'' @ string_of_rune lvl, FormatInt (sint (snd f)))
       # frame_fields (lvl + 1) fs"

definition stack_fields :: "bool \<Rightarrow> bytes \<Rightarrow> frame list \<Rightarrow> int \<Rightarrow> (bytes \<times> bytes) list" where
  "stack_fields ws goroot stack maxlevels =
     (if maxlevels = 0 then []
      else if emitted_frames ws goroot stack maxlevels = [] then [(''@file_0'', ''unavailable'')]
      else frame_fields 0x30 (emitted_frames ws goroot stack maxlevels))"

text \<open>
  The fields a builder call emits on an event whose \<open>withSystem\<close> flag is \<open>ws\<close> and
  whose \<open>callLevels\<close> is \<open>lv\<close>.
\<close>

fun builder_fields :: "runtime \<Rightarrow> bool \<Rightarrow> int \<Rightarrow> builder_call \<Rightarrow> (bytes \<times> bytes) list" where
  "builder_fields rt ws lv (Field f) = [(field_key f, field_value rt f)]"
| "builder_fields rt ws lv (CLine stack) = stack_fields ws (GOROOT rt) stack 1"
| "builder_fields rt ws lv (CCaller stack) = stack_fields ws (GOROOT rt) stack 2"
| "builder_fields rt ws lv (CCallStack stack) = stack_fields ws (GOROOT rt) stack lv"

text \<open>The timestamp and tag a Logger method writes first.\<close>

definition line_prefix :: "runtime \<Rightarrow> Logger \<Rightarrow> bytes \<Rightarrow> bytes" where
  "line_prefix rt l tg =
     (if Timestamp l \<noteq> [] then Now_AppendFormat rt (UTC l) (Timestamp l) else []) @ tg"

text \<open>
  The finished line (section 4.4): prefix, message, one space and the fields, with the
  final byte replaced by a line terminator.
\<close>

definition line_text :: "bytes \<Rightarrow> bytes \<Rightarrow> bytes \<Rightarrow> bytes" where
  "line_text pre msg flds = butlast (pre @ msg @ '' '' @ flds) @ [CHR 0x0A]"

text \<open>
  Reading decimal text back, as \<open>strconv.ParseUint(s, 10, 64)\<close> and
  \<open>strconv.ParseInt(s, 10, 64)\<close> read the text of a number: digits only, after an
  optional \<open>-\<close> for a signed number.
\<close>

definition digit_val :: "char \<Rightarrow> nat option" where
  "digit_val c =
     (let v = (of_char c :: nat) in if 48 \<le> v \<and> v \<le> 57 then Some (v - 48) else None)"

definition parse_step :: "nat option \<Rightarrow> char \<Rightarrow> nat option" where
  "parse_step acc c =
     (case acc of
        None \<Rightarrow> None
      | Some a \<Rightarrow> (case digit_val c of None \<Rightarrow> None | Some d \<Rightarrow> Some (10 * a + d)))"

definition ParseUint :: "bytes \<Rightarrow> nat option" where
  "ParseUint s = (if s = [] then None else foldl parse_step (Some 0) s)"

definition ParseInt :: "bytes \<Rightarrow> int option" where
  "ParseInt s =
     (case s of
        [] \<Rightarrow> None
      | c # r \<Rightarrow>
          (if c = CHR ''-'' then map_option (\<lambda>n. - int n) (ParseUint r)
           else map_option int (ParseUint s)))"

text \<open>The segments of a path between its \<open>/\<close> bytes, as \<open>strings.Split(path, "/")\<close> gives them.\<close>

fun segments :: "bytes \<Rightarrow> bytes list" where
  "segments [] = [[]]"
| "segments (c # cs) =
     (if c = CHR ''/'' then [] # segments cs
      else (case segments cs of
              [] \<Rightarrow> [[c]]
            | s # ss \<Rightarrow> (c # s) # ss))"

definition last_two_joined :: "bytes \<Rightarrow> bytes" where
  "last_two_joined path =
     (let ss = segments path; n = length ss
      in ss ! (n - 2) @ ''/'' @ ss ! (n - 1))"

section \<open>A logger and a run time to evaluate on\<close>

text \<open>
  \<open>NewPipeLogger\<close> of the source, with \<open>os.Stdout\<close> as writer 1 and \<open>os.Stderr\<close> as
  writer 2, and a run time whose clock reads a fixed instant.
\<close>

definition stdout :: writer where
  "stdout = 1"

definition stderr :: writer where
  "stderr = 2"

definition timestampFormat :: bytes where
  "timestampFormat = ''2006-01-02 15:04:05 ''"

definition NewPipeLogger :: Logger where
  "NewPipeLogger =
     \<lparr>ErrorWriter = Some stderr, InfoWriter = Some stdout, DebugWriter = None,
      Timestamp = timestampFormat, UTC = False, MaxCallLevels = 3,
      IncludeSystemFiles = False,
      ErrorTag = ''[ERROR] '', WarnTag = ''[WARN ] '', InfoTag = ''[INFO ] '',
      DebugTag = ''[DEBUG] '', KeyStart = [], KeyEnd = []\<rparr>"

definition example_runtime :: runtime where
  "example_runtime =
     \<lparr>Now_AppendFormat = (\<lambda>utc layout. ''2026-11-01 12:00:00 ''),
      AppendFloat = (\<lambda>f fmt prec bitSize. ''1''),
      float64_of_float32 = (\<lambda>f. 0),
      Sprintf = (\<lambda>fmtstr vals. fmtstr),
      GOROOT = ''/usr/local/go''\<rparr>"

definition example_stack :: "frame list" where
  "example_stack =
     [(''/src/blammo/blammo.go'', 440), (''/src/blammo/blammo.go'', 463),
      (''/src/blammo/log/log.go'', 29), (''/home/user/app/main.go'', 12),
      (''/usr/local/go/src/runtime/proc.go'', 250)]"

text \<open>The event \<open>Info()\<close> returns on a Logger without timestamps, before any field.\<close>

definition example_event :: Event where
  "example_event =
     \<lparr>txtbuf = ''[INFO ] '', tag = [], keyStart = [], keyEnd = [], msgpos = 8,
      callLevels = 3, withSystem = False, out = Some stdout\<rparr>"


text \<open>
  The event \<open>Info()\<close> returns on \<open>NewPipeLogger\<close> at the instant of the example run
  time, and the same event after \<open>.Int("x", 6).Line()\<close> on the example stack.
\<close>

definition info_event :: Event where
  "info_event =
     \<lparr>txtbuf = ''2026-11-01 12:00:00 [INFO ] '', tag = [], keyStart = [], keyEnd = [],
      msgpos = 28, callLevels = 3, withSystem = False, out = Some stdout\<rparr>"

definition info_event_with_fields :: Event where
  "info_event_with_fields =
     info_event\<lparr>txtbuf := ''2026-11-01 12:00:00 [INFO ] x=6 @file_0=app/main.go @line_0=12 ''\<rparr>"

definition fresh_world :: world where
  "fresh_world = \<lparr>written = [], pooled = []\<rparr>"

section \<open>Properties of the splicer\<close>

lemma splice_nonempty:
  assumes "0 \<le> p" and "p \<le> int (length b)" and "ins \<noteq> []"
  shows "splice' b ins p = Inr (take (nat p) b @ ins @ drop (nat p) b)"
proof -
  obtain k where k: "p = int k" "k \<le> length b"
    using assms(1,2) by (metis nat_le_iff nat_0_le)
  have len: "length ins \<ge> 1" using assms(3) by (cases ins) auto
  let ?t1 = "b @ ins"
  have d1: "subslice ?t1 (int k + int (length ins)) (int (length ?t1))
              = Inr (drop (k + length ins) ?t1)"
    using k by (simp add: subslice_def nat_add_distrib)
  have s1: "subslice ?t1 (int k) (int (length ?t1) - 1)
              = Inr (take (length b + length ins - 1 - k) (drop k ?t1))"
  proof -
    have "nat (int (length ?t1) - 1) - nat (int k) = length b + length ins - 1 - k"
      using len by simp
    moreover have "int k \<le> int (length ?t1) - 1" using k len by simp
    ultimately show ?thesis by (simp add: subslice_def del: length_append)
  qed
  have t2: "copy_at ?t1 (k + length ins) (length (drop (k + length ins) ?t1))
              (take (length b + length ins - 1 - k) (drop k ?t1))
            = take (k + length ins) ?t1 @ drop k b"
  proof -
    have l1: "length (drop (k + length ins) ?t1) = length b - k" using k by simp
    have l2: "length (take (length b + length ins - 1 - k) (drop k ?t1)) = length b + length ins - 1 - k"
      using k len by simp
    have m: "min (length b - k) (length b + length ins - 1 - k) = length b - k"
      using k len by simp
    have tk: "take (length b - k) (take (length b + length ins - 1 - k) (drop k ?t1)) = drop k b"
      using k len by (simp add: min_def)
    have dr: "drop (k + length ins + (length b - k)) ?t1 = []" using k by simp
    show ?thesis
      unfolding copy_at_def Let_def l1 l2 m tk dr by simp
  qed
  let ?t2 = "take (k + length ins) ?t1 @ drop k b"
  have d2: "subslice ?t2 (int k) (int k + int (length ins))
              = Inr (take (length ins) (drop k ?t2))"
    using k by (simp add: subslice_def nat_add_distrib)
  have t3: "copy_at ?t2 k (length (take (length ins) (drop k ?t2))) ins
             = take k b @ ins @ drop k b"
  proof -
    have l1: "length (take (length ins) (drop k ?t2)) = length ins" using k by simp
    have tk: "take k ?t2 = take k b" using k by simp
    have lt: "length (take (k + length ins) ?t1) = k + length ins" using k by simp
    have dr: "drop (k + length ins) ?t2 = drop k b"
      using lt by (metis append_eq_conv_conj)
    show ?thesis
      by (simp only: copy_at_def Let_def l1 min.idem tk dr take_all order_refl)
  qed
  show ?thesis
    unfolding splice'_def Let_def k(1) nat_int of_nat_add[symmetric]
    unfolding d1[unfolded of_nat_add[symmetric]] sum.case s1 t2 d2[unfolded of_nat_add[symmetric]] t3
    by (rule refl)
qed

lemma splice_test_1: "splice' ''abcdefg'' ''zzz'' 3 = Inr ''abczzzdefg''"
  using splice_nonempty [of 3 "''abcdefg''" "''zzz''"] by simp

lemma splice_test_2: "splice' ''abcdefg'' ''1234567890'' 6 = Inr ''abcdef1234567890g''"
  using splice_nonempty [of 6 "''abcdefg''" "''1234567890''"] by simp

lemma splice_empty_inside:
  assumes "0 \<le> p" and "p < int (length b)"
  shows "splice' b [] p = Inr b"
proof -
  obtain k where k: "p = int k" "k < length b"
    using assms by (metis nat_less_iff nat_0_le)
  have m: "min (length b - k) (length b - Suc k) = length b - Suc k" by simp
  have "take (length b - Suc k) (drop k b) @ drop (length b - Suc k) (drop k b) = drop k b"
    by (rule append_take_drop_id)
  then have "take k b @ take (length b - Suc k) (drop k b) @ drop (k + (length b - Suc k)) b = b"
    by (simp only: drop_drop add.commute append_take_drop_id)
  then show ?thesis
    using k by (simp add: splice'_def subslice_def copy_at_def Let_def nat_diff_distrib m)
qed


section \<open>Properties of the field encoder\<close>

lemma appendKey_txtbuf:
  "appendKey e k = e\<lparr>txtbuf := txtbuf e @ keyStart e @ k @ keyEnd e @ ''=''\<rparr>"
  by (simp add: appendKey_def)

lemma Str_Some:
  "Str (Some e) k v = Some (e\<lparr>txtbuf := txtbuf e @ field_text (keyStart e) (keyEnd e) (k, v)\<rparr>)"
  by (simp add: Str_def appendKey_txtbuf field_text_def)

lemma append_unsigned_Some:
  "append_unsigned (Some e) k u
     = Some (e\<lparr>txtbuf := txtbuf e @ field_text (keyStart e) (keyEnd e) (k, digits10 (unat u))\<rparr>)"
  by (simp add: append_unsigned_def appendKey_txtbuf field_text_def AppendUint_def)

lemma append_signed_Some:
  "append_signed (Some e) k i
     = Some (e\<lparr>txtbuf := txtbuf e @ field_text (keyStart e) (keyEnd e) (k, FormatInt (sint i))\<rparr>)"
  by (simp add: append_signed_def appendKey_txtbuf field_text_def AppendInt_def)

lemma unat_ucast_up:
  "LENGTH('a::len) \<le> LENGTH('b::len) \<Longrightarrow> unat (ucast (w :: 'a word) :: 'b word) = unat w"
proof -
  assume "LENGTH('a) \<le> LENGTH('b)"
  then have "uint (ucast w :: 'b word) = uint w"
    by (intro uint_up_ucast) (simp add: is_up)
  then show ?thesis
    by (simp only: unat_eq_nat_uint)
qed

lemma sint_scast_up:
  "LENGTH('a::len) \<le> LENGTH('b::len) \<Longrightarrow> sint (scast (w :: 'a word) :: 'b word) = sint w"
  by (simp add: sint_up_scast is_up)

lemma set_field_Some:
  "set_field rt f (Some e)
     = Some (e\<lparr>txtbuf := txtbuf e @ field_text (keyStart e) (keyEnd e) (field_key f, field_value rt f)\<rparr>)"
proof (cases f)
  case (FFloat32 k v)
  then show ?thesis by (simp add: Float32_def appendKey_txtbuf field_text_def)
next
  case (FFloat64 k v)
  then show ?thesis by (simp add: Float64_def appendKey_txtbuf field_text_def)
next
  case (FTime k v)
  then show ?thesis by (simp add: Time_def appendKey_txtbuf field_text_def)
next
  case (FErr err)
  then show ?thesis by (cases err) (simp_all add: Err_def Str_Some)
qed (simp_all add: Str_Some Bool_def Bytes_def Int'_def Itoa_def
       Uint8_def Int8_def Uint16_def Int16_def Uint32_def Int32_def Uint64_def Int64_def
       append_unsigned_Some append_signed_Some unat_ucast_up sint_scast_up)

text \<open>
  Claim C8. On a real event, a field setter appends exactly key-highlight-start, the
  key, key-highlight-end, \<open>=\<close>, the rendered value and one space: \<open>Str\<close> does so for
  every key \<open>K\<close> and every value \<open>V\<close>, whatever bytes they hold (nothing is escaped or
  altered), and every typed setter does so with its key and its rendered value.
\<close>

theorem field_is_key_equals_value_space:
  "Str (Some e) K V
     = Some (e\<lparr>txtbuf := txtbuf e @ keyStart e @ K @ keyEnd e @ ''='' @ V @ '' ''\<rparr>)
   \<and> set_field rt f (Some e)
     = Some (e\<lparr>txtbuf := txtbuf e @ keyStart e @ field_key f @ keyEnd e @ ''=''
                              @ field_value rt f @ '' ''\<rparr>)"
  using Str_Some [of e K V] set_field_Some [of rt f e] by (simp add: field_text_def)

section \<open>The absent event\<close>

lemma set_field_None: "set_field rt f None = None"
  by (cases f)
     (simp_all add: Str_def Bool_def Bytes_def Err_def Float32_def Float64_def Int'_def
        Uint8_def Int8_def Uint16_def Int16_def Uint32_def Int32_def Uint64_def Int64_def
        append_unsigned_def append_signed_def Time_def)

lemma build1_None: "build1 rt b None = Inr None"
  by (cases b) (simp_all add: set_field_None Line_def Caller_def CallStack_def)

lemma invoke_None: "invoke rt c None s = Inr (None, s)"
  by (cases c) (simp_all add: build1_None Msg_def Msgf_def)

text \<open>
  Claim C3. Every method invoked on the nil event returns the nil event (\<open>Msg\<close> and
  \<open>Msgf\<close>, which have no result, leave the caller with the nil receiver), leaves the
  world as it was, so that nothing is written to any destination, and does not
  panic; and so does every finite sequence of invocations, in any order.
\<close>

theorem nil_event_chain_is_noop:
  "invoke rt c None s = Inr (None, s) \<and> invoke_all rt cs None s = Inr (None, s)"
proof
  show "invoke rt c None s = Inr (None, s)" by (rule invoke_None)
  show "invoke_all rt cs None s = Inr (None, s)"
    by (induction cs) (simp_all add: invoke_None)
qed

section \<open>Disabled severities\<close>

text \<open>
  Claim C4. When the debug writer of a Logger is nil, \<open>Debug()\<close> returns the nil
  event and leaves the world as it was, and any chain of calls on its result that
  ends with \<open>Msg\<close> returns without a panic and leaves the world as it was: nothing
  is written to any stream. The same holds for \<open>Info\<close> with a nil info writer, and
  for \<open>Warn\<close> and \<open>Error\<close>, which both write to the error writer.
\<close>

theorem disabled_severity_writes_nothing:
  "(DebugWriter l = None \<longrightarrow>
      Debug rt l s = (None, s)
      \<and> invoke_all rt (cs @ [CMsg m]) (fst (Debug rt l s)) (snd (Debug rt l s)) = Inr (None, s))
   \<and> (InfoWriter l = None \<longrightarrow>
      Info rt l s = (None, s)
      \<and> invoke_all rt (cs @ [CMsg m]) (fst (Info rt l s)) (snd (Info rt l s)) = Inr (None, s))
   \<and> (ErrorWriter l = None \<longrightarrow>
      Warn rt l s = (None, s)
      \<and> invoke_all rt (cs @ [CMsg m]) (fst (Warn rt l s)) (snd (Warn rt l s)) = Inr (None, s)
      \<and> Error rt l s = (None, s)
      \<and> invoke_all rt (cs @ [CMsg m]) (fst (Error rt l s)) (snd (Error rt l s)) = Inr (None, s))"
proof -
  have chain: "invoke_all rt (cs @ [CMsg m]) None s = Inr (None, s)"
    by (induction cs) (simp_all add: invoke_None Msg_def)
  show ?thesis
    by (simp add: Debug_def Info_def Warn_def Error_def newEvent_def chain)
qed

theorem disabled_severity_writes_nothing_witness:
  "Debug example_runtime NewPipeLogger fresh_world = (None, fresh_world)
   \<and> invoke_all example_runtime
        ([Builder (Field (FInt ''x'' 6)), Builder (Field (FInt ''y'' 42)),
          Builder (CCaller example_stack)] @ [CMsg ''Debug trace''])
        (fst (Debug example_runtime NewPipeLogger fresh_world))
        (snd (Debug example_runtime NewPipeLogger fresh_world)) = Inr (None, fresh_world)
   \<and> Info example_runtime (NewPipeLogger\<lparr>InfoWriter := None\<rparr>) fresh_world = (None, fresh_world)
   \<and> Error example_runtime (NewPipeLogger\<lparr>ErrorWriter := None\<rparr>) fresh_world = (None, fresh_world)
   \<and> Warn example_runtime (NewPipeLogger\<lparr>ErrorWriter := None\<rparr>) fresh_world = (None, fresh_world)"
proof -
  have d: "DebugWriter NewPipeLogger = None" by (simp add: NewPipeLogger_def)
  have i: "InfoWriter (NewPipeLogger\<lparr>InfoWriter := None\<rparr>) = None" by simp
  have e: "ErrorWriter (NewPipeLogger\<lparr>ErrorWriter := None\<rparr>) = None" by simp
  note t1 = disabled_severity_writes_nothing
    [of NewPipeLogger example_runtime fresh_world
        "[Builder (Field (FInt ''x'' 6)), Builder (Field (FInt ''y'' 42)),
          Builder (CCaller example_stack)]" "''Debug trace''"]
  note t2 = disabled_severity_writes_nothing
    [of "NewPipeLogger\<lparr>InfoWriter := None\<rparr>" example_runtime fresh_world "[]" "[]"]
  note t3 = disabled_severity_writes_nothing
    [of "NewPipeLogger\<lparr>ErrorWriter := None\<rparr>" example_runtime fresh_world "[]" "[]"]
  from t1 d have "Debug example_runtime NewPipeLogger fresh_world = (None, fresh_world)
   \<and> invoke_all example_runtime
        ([Builder (Field (FInt ''x'' 6)), Builder (Field (FInt ''y'' 42)),
          Builder (CCaller example_stack)] @ [CMsg ''Debug trace''])
        (fst (Debug example_runtime NewPipeLogger fresh_world))
        (snd (Debug example_runtime NewPipeLogger fresh_world)) = Inr (None, fresh_world)"
    by blast
  moreover from t2 i have "Info example_runtime (NewPipeLogger\<lparr>InfoWriter := None\<rparr>) fresh_world = (None, fresh_world)"
    by blast
  moreover from t3 e have "Error example_runtime (NewPipeLogger\<lparr>ErrorWriter := None\<rparr>) fresh_world = (None, fresh_world)
     \<and> Warn example_runtime (NewPipeLogger\<lparr>ErrorWriter := None\<rparr>) fresh_world = (None, fresh_world)"
    by blast
  ultimately show ?thesis by blast
qed

section \<open>Properties of path abbreviation\<close>

subsection \<open>The rune-wise loop is the byte-wise loop\<close>

lemma of_char_slash: "(of_char c = (47::nat)) = (c = CHR ''/'')"
proof -
  have "of_char (CHR ''/'') = (47::nat)" by simp
  then show ?thesis by (metis of_char_eq_iff)
qed

lemma range_step_slash:
  assumes "i < length path" and "path ! i = CHR ''/''"
  shows "range_step path i = (0x2F, i + 1)"
  using assms by (simp add: range_step_def byte_at_def)

lemma cont_not_slash:
  assumes "is_cont (byte_at (drop i path) d)" and "i + d < length path"
  shows "path ! (i + d) \<noteq> CHR ''/''"
proof
  assume "path ! (i + d) = CHR ''/''"
  then have "byte_at (drop i path) d = 47"
    using assms(2) by (simp add: byte_at_def)
  with assms(1) show False by (simp add: is_cont_def)
qed

lemma gt_not_slash: "(127::nat) < r \<Longrightarrow> r \<noteq> 47"
  by simp

lemma decoderune_fst: "fst (decoderune path i) \<noteq> 0x2F"
  unfolding decoderune_def Let_def
  by (intro if_cases2 [where P = "\<lambda>x. fst x \<noteq> 0x2F"];
      simp only: fst_conv runeError_def; (elim conjE)?; (erule gt_not_slash | simp))

lemma decoderune_snd:
  assumes "i < length path"
  shows "snd (decoderune path i) \<le> length path"
  unfolding decoderune_def Let_def
  by (intro if_cases2 [where P = "\<lambda>x. snd x \<le> length path"];
      simp only: snd_conv; (elim conjE)?; use assms in simp)

lemma cont0: "\<forall>d::nat. 0 < d \<and> i + d < i + 1 \<longrightarrow> P d"
  by simp

lemma cont1:
  assumes "is_cont (byte_at (drop i path) 1)" and "1 < length (drop i path)"
  shows "\<forall>d. 0 < d \<and> i + d < i + 2 \<longrightarrow> path ! (i + d) \<noteq> CHR ''/''"
proof (intro allI impI)
  fix d :: nat
  assume "0 < d \<and> i + d < i + 2"
  then have "d = 1" by simp
  with assms show "path ! (i + d) \<noteq> CHR ''/''"
    using cont_not_slash [of i path 1] by simp
qed

lemma cont2:
  assumes "is_cont (byte_at (drop i path) 1)" and "is_cont (byte_at (drop i path) 2)"
    and "2 < length (drop i path)"
  shows "\<forall>d. 0 < d \<and> i + d < i + 3 \<longrightarrow> path ! (i + d) \<noteq> CHR ''/''"
proof (intro allI impI)
  fix d :: nat
  assume "0 < d \<and> i + d < i + 3"
  then have "d = 1 \<or> d = 2" by auto
  with assms show "path ! (i + d) \<noteq> CHR ''/''"
    using cont_not_slash [of i path 1] cont_not_slash [of i path 2] by auto
qed

lemma cont3:
  assumes "is_cont (byte_at (drop i path) 1)" and "is_cont (byte_at (drop i path) 2)"
    and "is_cont (byte_at (drop i path) 3)" and "3 < length (drop i path)"
  shows "\<forall>d. 0 < d \<and> i + d < i + 4 \<longrightarrow> path ! (i + d) \<noteq> CHR ''/''"
proof (intro allI impI)
  fix d :: nat
  assume "0 < d \<and> i + d < i + 4"
  then have d: "d = 1 \<or> d = 2 \<or> d = 3" by auto
  have len: "i + 1 < length path" "i + 2 < length path" "i + 3 < length path"
    using assms(4) by simp_all
  show "path ! (i + d) \<noteq> CHR ''/''"
    using d cont_not_slash [OF assms(1) len(1)] cont_not_slash [OF assms(2) len(2)]
      cont_not_slash [OF assms(3) len(3)] by auto
qed

lemma decoderune_cont:
  "\<forall>d. 0 < d \<and> i + d < snd (decoderune path i) \<longrightarrow> path ! (i + d) \<noteq> CHR ''/''"
  unfolding decoderune_def Let_def
  by (intro if_cases2 [where P = "\<lambda>x. \<forall>d. 0 < d \<and> i + d < snd x \<longrightarrow> path ! (i + d) \<noteq> CHR ''/''"];
      simp only: snd_conv; (elim conjE)?;
      (rule cont0 | (rule cont1; assumption) | (rule cont2; assumption) | (rule cont3; assumption)))

lemma range_step_other:
  assumes "i < length path" and "path ! i \<noteq> CHR ''/''"
  shows "fst (range_step path i) \<noteq> 0x2F"
    and "snd (range_step path i) \<le> length path"
    and "\<forall>j. i < j \<and> j < snd (range_step path i) \<longrightarrow> path ! j \<noteq> CHR ''/''"
proof -
  show "fst (range_step path i) \<noteq> 0x2F"
    using assms decoderune_fst [of path i]
    by (simp add: range_step_def byte_at_def of_char_slash)
  show "snd (range_step path i) \<le> length path"
    using assms decoderune_snd [of i path] by (simp add: range_step_def)
  show "\<forall>j. i < j \<and> j < snd (range_step path i) \<longrightarrow> path ! j \<noteq> CHR ''/''"
  proof (intro allI impI)
    fix j
    assume j: "i < j \<and> j < snd (range_step path i)"
    then obtain d where d: "j = i + d" "0 < d"
      by (metis less_imp_add_positive)
    show "path ! j \<noteq> CHR ''/''"
    proof (cases "byte_at path i < 0x80")
      case True
      with j show ?thesis by (auto simp add: range_step_def)
    next
      case False
      with j d have "i + d < snd (decoderune path i)" by (simp add: range_step_def)
      with d decoderune_cont [of i path] show ?thesis by blast
    qed
  qed
qed

lemma scan_skip:
  assumes "\<forall>j. i \<le> j \<and> j < k \<longrightarrow> path ! j \<noteq> CHR ''/''" and "i \<le> k" and "k \<le> length path"
  shows "scan (drop i path) i ls ps = scan (drop k path) k ls ps"
  using assms(2,1,3)
proof (induction k rule: dec_induct)
  case base
  show ?case by simp
next
  case (step n)
  have "scan (drop n path) n ls ps = scan (drop (Suc n) path) (Suc n) ls ps"
    using step.prems step.hyps by (simp add: Cons_nth_drop_Suc [symmetric])
  with step show ?case by simp
qed

lemma abbreviate_loop_scan:
  "abbreviate_loop path i ls ps = scan (drop i path) i ls ps"
proof (induction path i ls ps rule: abbreviate_loop.induct)
  case (1 path i ls ps)
  show ?case
  proof (cases "i < length path")
    case False
    then show ?thesis by (simp add: abbreviate_loop.simps)
  next
    case True
    show ?thesis
    proof (cases "path ! i = CHR ''/''")
      case slash: True
      have rs: "range_step path i = (0x2F, i + 1)"
        using True slash by (rule range_step_slash)
      have "abbreviate_loop path i ls ps = abbreviate_loop path (i + 1) (int i) ls"
        using True rs by (subst abbreviate_loop.simps) simp
      also have "\<dots> = scan (drop (i + 1) path) (i + 1) (int i) ls"
        using "1.IH"(1) [OF True] rs by simp
      also have "\<dots> = scan (drop i path) i ls ps"
        using True slash by (simp add: Cons_nth_drop_Suc [symmetric])
      finally show ?thesis .
    next
      case other: False
      note rs = range_step_other [OF True other]
      let ?k = "snd (range_step path i)"
      have "abbreviate_loop path i ls ps = abbreviate_loop path ?k ls ps"
        using True rs(1) by (subst abbreviate_loop.simps) simp
      also have "\<dots> = scan (drop ?k path) ?k ls ps"
        using "1.IH"(2) [OF True rs(1)] .
      also have "\<dots> = scan (drop i path) i ls ps"
      proof (rule scan_skip [symmetric])
        show "\<forall>j. i \<le> j \<and> j < ?k \<longrightarrow> path ! j \<noteq> CHR ''/''"
          using rs(3) other by (metis le_neq_implies_less)
        show "i \<le> ?k" using range_step_next [of i path] by simp
        show "?k \<le> length path" by (rule rs(2))
      qed
      finally show ?thesis .
    qed
  qed
qed

subsection \<open>What the loop leaves in \<open>ls\<close> and \<open>ps\<close>\<close>

lemma scan_append:
  "scan (xs @ ys) i ls ps = (case scan xs i ls ps of (l, p) \<Rightarrow> scan ys (i + length xs) l p)"
  by (induction xs arbitrary: i ls ps) simp_all

lemma scan_no_slash: "CHR ''/'' \<notin> set xs \<Longrightarrow> scan xs i ls ps = (ls, ps)"
  by (induction xs arbitrary: i) auto

lemma scan_bounds:
  assumes "0 \<le> ps" and "ps \<le> ls" and "ls < int i \<or> ls = 0"
  shows "0 \<le> snd (scan xs i ls ps) \<and> snd (scan xs i ls ps) \<le> fst (scan xs i ls ps)
         \<and> (fst (scan xs i ls ps) < int (i + length xs) \<or> fst (scan xs i ls ps) = 0)"
  using assms
proof (induction xs arbitrary: i ls ps)
  case Nil
  then show ?case by auto
next
  case (Cons c cs)
  show ?case
  proof (cases "c = CHR ''/''")
    case True
    have "0 \<le> snd (scan cs (Suc i) (int i) ls) \<and> snd (scan cs (Suc i) (int i) ls) \<le> fst (scan cs (Suc i) (int i) ls)
         \<and> (fst (scan cs (Suc i) (int i) ls) < int (Suc i + length cs) \<or> fst (scan cs (Suc i) (int i) ls) = 0)"
      using Cons.prems by (intro Cons.IH) auto
    with True show ?thesis by simp
  next
    case False
    have "0 \<le> snd (scan cs (Suc i) ls ps) \<and> snd (scan cs (Suc i) ls ps) \<le> fst (scan cs (Suc i) ls ps)
         \<and> (fst (scan cs (Suc i) ls ps) < int (Suc i + length cs) \<or> fst (scan cs (Suc i) ls ps) = 0)"
      using Cons.prems by (intro Cons.IH) auto
    with False show ?thesis by simp
  qed
qed

lemma abbreviate_scan:
  "abbreviate path =
     (case scan path 0 0 0 of
        (ls, ps) \<Rightarrow>
          (case index_at path ps of
             Inl p \<Rightarrow> Inl p
           | Inr c \<Rightarrow> subslice path (if c = CHR ''/'' then ps + 1 else ps) (int (length path))))"
  by (simp add: abbreviate_def abbreviate_loop_scan Let_def split: prod.split sum.split)

lemma abbreviate_empty: "abbreviate [] = Inl IndexOutOfRange"
  by (simp add: abbreviate_scan index_at_def)

lemma abbreviate_suffix:
  assumes "path \<noteq> []"
  shows "\<exists>s. abbreviate path = Inr s \<and> suffix s path"
proof -
  obtain ls ps where sc: "scan path 0 0 0 = (ls, ps)" by (cases "scan path 0 0 0")
  have "0 \<le> ps \<and> ps \<le> ls \<and> (ls < int (length path) \<or> ls = 0)"
    using scan_bounds [of 0 0 0 path] sc by simp
  with assms have ps: "0 \<le> ps" "ps < int (length path)" by auto
  define ps1 where "ps1 = (if path ! nat ps = CHR ''/'' then ps + 1 else ps)"
  have ps1: "0 \<le> ps1" "ps1 \<le> int (length path)" using ps by (auto simp: ps1_def)
  have "abbreviate path = Inr (drop (nat ps1) path)"
    using ps ps1 sc by (simp add: abbreviate_scan index_at_def subslice_def ps1_def)
  then show ?thesis by (auto simp: suffix_drop)
qed

lemma abbreviate_no_slash:
  assumes "path \<noteq> []" and "CHR ''/'' \<notin> set path"
  shows "abbreviate path = Inr path"
proof -
  have "path ! 0 \<noteq> CHR ''/''" using assms by (metis length_greater_0_conv nth_mem)
  then show ?thesis
    using assms by (simp add: abbreviate_scan scan_no_slash index_at_def subslice_def)
qed

lemma abbreviate_one_slash:
  assumes "CHR ''/'' \<notin> set b" and "CHR ''/'' \<notin> set c"
  shows "abbreviate (b @ CHR ''/'' # c) = Inr (if b = [] then c else b @ CHR ''/'' # c)"
proof -
  have sc: "scan (b @ CHR ''/'' # c) 0 0 0 = (int (length b), 0)"
    using assms by (simp add: scan_append scan_no_slash)
  show ?thesis
  proof (cases b)
    case Nil
    then show ?thesis using sc by (simp add: abbreviate_scan index_at_def subslice_def)
  next
    case (Cons x xs)
    then have "x \<noteq> CHR ''/''" using assms(1) by auto
    then show ?thesis using sc Cons by (simp add: abbreviate_scan index_at_def subslice_def)
  qed
qed

lemma abbreviate_two_slashes:
  assumes "CHR ''/'' \<notin> set b" and "CHR ''/'' \<notin> set c"
  shows "abbreviate (a @ CHR ''/'' # b @ CHR ''/'' # c) = Inr (b @ CHR ''/'' # c)"
proof -
  obtain la pa where a: "scan a 0 0 0 = (la, pa)" by (cases "scan a 0 0 0")
  have sc: "scan (a @ CHR ''/'' # b @ CHR ''/'' # c) 0 0 0
              = (int (length a + 1 + length b), int (length a))"
    using assms a by (simp add: scan_append scan_no_slash)
  have ix: "index_at (a @ CHR ''/'' # b @ CHR ''/'' # c) (int (length a)) = Inr (CHR ''/'')"
    by (simp add: index_at_def)
  have sl: "subslice (a @ CHR ''/'' # b @ CHR ''/'' # c) (int (length a) + 1)
              (int (length (a @ CHR ''/'' # b @ CHR ''/'' # c))) = Inr (b @ CHR ''/'' # c)"
    by (simp add: subslice_def nat_add_distrib)
  show ?thesis
    unfolding abbreviate_scan sc using ix sl by simp
qed

subsection \<open>Segments\<close>

lemma segments_not_Nil: "segments s \<noteq> []"
  by (induction s) (simp_all split: list.split)

lemma segments_no_slash: "CHR ''/'' \<notin> set s \<Longrightarrow> segments s = [s]"
  by (induction s) auto

lemma segments_append: "segments (a @ CHR ''/'' # r) = segments a @ segments r"
proof (induction a)
  case Nil
  show ?case by simp
next
  case (Cons c a)
  obtain x xs where sa: "segments a = x # xs"
    using segments_not_Nil [of a] by (cases "segments a") auto
  show ?case using Cons sa by simp
qed

lemma last_two_of_append:
  "(let ss = pre @ [b, c]; n = length ss in ss ! (n - 2) @ ''/'' @ ss ! (n - 1)) = b @ CHR ''/'' # c"
  by (simp add: Let_def nth_append)

text \<open>
  Claim C6, as amended. A path with at least two segments is reduced to its last two
  segments joined by \<open>/\<close>, except a path of exactly two segments whose first is
  empty (its only \<open>/\<close> is its first byte), which is returned without that \<open>/\<close>; a
  non-empty path of one segment is returned unchanged.
\<close>

theorem abbreviate_last_two_segments:
  "(2 \<le> length (segments path) \<and> \<not> (length (segments path) = 2 \<and> hd (segments path) = [])
      \<longrightarrow> abbreviate path = Inr (last_two_joined path))
   \<and> (length (segments path) = 2 \<and> hd (segments path) = []
      \<longrightarrow> abbreviate path = Inr (last (segments path)))
   \<and> (length (segments path) = 1 \<and> path \<noteq> [] \<longrightarrow> abbreviate path = Inr path)"
proof (cases "CHR ''/'' \<in> set path")
  case False
  then show ?thesis
    using abbreviate_no_slash [of path] by (simp add: segments_no_slash)
next
  case True
  then obtain a1 c where p: "path = a1 @ CHR ''/'' # c" and c: "CHR ''/'' \<notin> set c"
    by (metis split_list_last)
  show ?thesis
  proof (cases "CHR ''/'' \<in> set a1")
    case False
    have seg: "segments path = [a1, c]"
      using False c by (simp add: p segments_append segments_no_slash)
    have l2: "last_two_joined path = path"
      by (simp add: last_two_joined_def seg Let_def) (simp add: p)
    have ab: "abbreviate path = Inr (if a1 = [] then c else path)"
      using abbreviate_one_slash [OF False c] by (simp add: p)
    show ?thesis
      by (simp add: seg l2 ab)
  next
    case True
    then obtain a b where a1: "a1 = a @ CHR ''/'' # b" and b: "CHR ''/'' \<notin> set b"
      by (metis split_list_last)
    have seg: "segments path = segments a @ [b, c]"
      using b c by (simp add: p a1 segments_append segments_no_slash)
    have len: "3 \<le> length (segments path)"
      using segments_not_Nil [of a] by (cases "segments a") (simp_all add: seg)
    have l2: "last_two_joined path = b @ CHR ''/'' # c"
      unfolding last_two_joined_def seg by (rule last_two_of_append)
    have "abbreviate path = Inr (b @ CHR ''/'' # c)"
      using abbreviate_two_slashes [OF b c, of a] by (simp add: p a1)
    then show ?thesis using len l2 by simp
  qed
qed

theorem abbreviate_last_two_segments_witness:
  "abbreviate ''/home/user/model/foo.go'' = Inr ''model/foo.go''
   \<and> abbreviate ''model/foo.go'' = Inr ''model/foo.go''
   \<and> abbreviate ''/foo.go'' = Inr ''foo.go''
   \<and> abbreviate ''foo.go'' = Inr ''foo.go''"
  using abbreviate_last_two_segments [of "''/home/user/model/foo.go''"]
    abbreviate_last_two_segments [of "''model/foo.go''"]
    abbreviate_last_two_segments [of "''/foo.go''"]
    abbreviate_last_two_segments [of "''foo.go''"]
  by (simp add: last_two_joined_def)

text \<open>
  The claim as the specification words it fails at \<open>/a\<close>, whose two segments are the
  empty one and \<open>a\<close>: the last two segments joined by \<open>/\<close> are \<open>/a\<close>, and
  \<open>abbreviate\<close> returns \<open>a\<close>. It also fails at the empty path, which has one segment
  and no \<open>/\<close>: \<open>abbreviate\<close> panics there.
\<close>

theorem abbreviate_leading_slash_counterexample:
  "2 \<le> length (segments ''/a'') \<and> last_two_joined ''/a'' = ''/a''
   \<and> abbreviate ''/a'' = Inr ''a''
   \<and> length (segments []) = 1 \<and> CHR ''/'' \<notin> set ([] :: bytes)
   \<and> abbreviate [] = Inl IndexOutOfRange"
  using abbreviate_one_slash [of "[]" "''a''"]
  by (simp add: last_two_joined_def abbreviate_empty)

text \<open>
  Claim C10. \<open>abbreviate\<close> panics on the empty path, where \<open>path[ps]\<close> reads index 0 of
  an empty string; on every other path it returns a suffix of the path. In the older
  variant of the capturer, \<open>writeCaller\<close> does not look at the success flag of
  \<open>runtime.Caller\<close>: when there is no frame at the requested level the file name is
  empty, and \<open>abbreviate\<close> panics.
\<close>

theorem abbreviate_panics_on_empty_path:
  "abbreviate [] = Inl IndexOutOfRange
   \<and> (\<forall>path. path \<noteq> [] \<longrightarrow> (\<exists>s. abbreviate path = Inr s \<and> suffix s path))
   \<and> (\<forall>stack ev n. \<not> (0 \<le> n \<and> n < int (length stack))
          \<longrightarrow> writeCaller stack ev n = Inl IndexOutOfRange)"
proof (intro conjI allI impI)
  show "abbreviate [] = Inl IndexOutOfRange" by (rule abbreviate_empty)
next
  fix path :: bytes
  assume "path \<noteq> []"
  then show "\<exists>s. abbreviate path = Inr s \<and> suffix s path" by (rule abbreviate_suffix)
next
  fix stack :: "frame list" and ev :: "Event option" and n :: int
  assume "\<not> (0 \<le> n \<and> n < int (length stack))"
  then have "runtime_Caller stack n = ([], 0, False)" by (simp add: runtime_Caller_def)
  then show "writeCaller stack ev n = Inl IndexOutOfRange"
    by (simp add: writeCaller_def abbreviate_empty Let_def)
qed

theorem abbreviate_panics_on_empty_path_witness:
  "abbreviate [] = Inl IndexOutOfRange
   \<and> (\<exists>s. abbreviate ''model/foo.go'' = Inr s \<and> suffix s ''model/foo.go'')
   \<and> writeCaller [(''/src/blammo/blammo.go'', 409)] (Some pool_New) 3 = Inl IndexOutOfRange"
proof -
  note t = abbreviate_panics_on_empty_path
  have ne: "''model/foo.go'' \<noteq> []" by simp
  have nf: "\<not> (0 \<le> (3::int) \<and> (3::int) < int (length [(''/src/blammo/blammo.go'', 409 :: 64 word)]))"
    by simp
  from t have "abbreviate [] = Inl IndexOutOfRange" by (rule conjunct1)
  moreover from t ne have "\<exists>s. abbreviate ''model/foo.go'' = Inr s \<and> suffix s ''model/foo.go''"
    by blast
  moreover from t nf
  have "writeCaller [(''/src/blammo/blammo.go'', 409)] (Some pool_New) 3 = Inl IndexOutOfRange"
    by blast
  ultimately show ?thesis by blast
qed

section \<open>Properties of the call-frame capturer\<close>

lemma abbreviate_cases:
  "abbreviate fn = (if fn = [] then Inl IndexOutOfRange else Inr (short_name fn))"
proof (cases "fn = []")
  case True
  then show ?thesis by (simp add: abbreviate_empty)
next
  case False
  then obtain s where "abbreviate fn = Inr s" using abbreviate_suffix by blast
  with False show ?thesis by (simp add: short_name_def)
qed

lemma drop_visited_Cons:
  assumes "0 \<le> n" and "n < m" and "n + blammoLevels < int (length stack)"
  shows "drop (nat n) (visited_frames stack m)
           = stack ! nat (n + blammoLevels) # drop (nat (n + 1)) (visited_frames stack m)"
proof -
  let ?v = "visited_frames stack m"
  have len: "nat n < length ?v"
    using assms by (simp add: visited_frames_def blammoLevels_def)
  have nth: "?v ! nat n = stack ! nat (n + blammoLevels)"
    using assms by (simp add: visited_frames_def blammoLevels_def nat_add_distrib add.commute)
  have "drop (nat n) ?v = ?v ! nat n # drop (Suc (nat n)) ?v"
    using len by (simp add: Cons_nth_drop_Suc)
  moreover have "Suc (nat n) = nat (n + 1)" using assms(1) by simp
  ultimately show ?thesis using nth by simp
qed

lemma drop_visited_Nil:
  assumes "0 \<le> n" and "\<not> (n < m \<and> n + blammoLevels < int (length stack))"
  shows "drop (nat n) (visited_frames stack m) = []"
  using assms by (auto simp add: visited_frames_def blammoLevels_def)

lemma loop_stop:
  "\<not> (ok \<and> n < m) \<Longrightarrow> writeCallStack_loop g st m n ok lvl walo ev = Inr (walo, ev)"
  by (subst writeCallStack_loop.simps) auto

lemma loop_exhausted:
  assumes "0 \<le> n" and "n < m" and "\<not> n + blammoLevels < int (length st)"
  shows "writeCallStack_loop g st m n True lvl walo ev = Inr (walo, ev)"
proof -
  have c: "runtime_Caller st (n + blammoLevels) = ([], 0, False)"
    using assms by (simp add: runtime_Caller_def)
  show ?thesis
    using assms(2) c by (subst writeCallStack_loop.simps) (simp add: loop_stop)
qed

lemma loop_skip:
  assumes "0 \<le> n" and "n < m" and "n + blammoLevels < int (length st)"
    and "\<not> (withSystem e \<or> \<not> prefix g (fst (st ! nat (n + blammoLevels))))"
  shows "writeCallStack_loop g st m n True lvl walo (Some e)
           = writeCallStack_loop g st m (n + 1) True lvl walo (Some e)"
proof -
  have c: "runtime_Caller st (n + blammoLevels)
             = (fst (st ! nat (n + blammoLevels)), snd (st ! nat (n + blammoLevels)), True)"
    using assms by (simp add: runtime_Caller_def blammoLevels_def)
  show ?thesis
    using assms(2,4) c by (subst writeCallStack_loop.simps) simp
qed

lemma loop_panic:
  assumes "0 \<le> n" and "n < m" and "n + blammoLevels < int (length st)"
    and "withSystem e \<or> \<not> prefix g (fst (st ! nat (n + blammoLevels)))"
    and "fst (st ! nat (n + blammoLevels)) = []"
  shows "writeCallStack_loop g st m n True lvl walo (Some e) = Inl IndexOutOfRange"
proof -
  have c: "runtime_Caller st (n + blammoLevels)
             = ([], snd (st ! nat (n + blammoLevels)), True)"
    using assms by (simp add: runtime_Caller_def blammoLevels_def)
  show ?thesis
    using assms(2,4,5) c by (subst writeCallStack_loop.simps) (simp add: abbreviate_empty)
qed

lemma loop_emit:
  assumes "0 \<le> n" and "n < m" and "n + blammoLevels < int (length st)"
    and "withSystem e \<or> \<not> prefix g (fst (st ! nat (n + blammoLevels)))"
    and "fst (st ! nat (n + blammoLevels)) \<noteq> []"
  shows "writeCallStack_loop g st m n True lvl walo (Some e)
           = writeCallStack_loop g st m (n + 1) True (lvl + 1) True
               (Some (e\<lparr>txtbuf := txtbuf e
                    @ concat (map (field_text (keyStart e) (keyEnd e))
                        (frame_fields lvl [st ! nat (n + blammoLevels)]))\<rparr>))"
proof -
  let ?f = "st ! nat (n + blammoLevels)"
  have c: "runtime_Caller st (n + blammoLevels) = (fst ?f, snd ?f, True)"
    using assms by (simp add: runtime_Caller_def blammoLevels_def)
  have a: "abbreviate (fst ?f) = Inr (short_name (fst ?f))"
    using assms(5) by (simp add: abbreviate_cases)
  show ?thesis
    using assms(2,4) c a
    by (subst writeCallStack_loop.simps)
       (simp add: Str_Some Int'_def Itoa_def Let_def)
qed

lemma loop_char:
  assumes "0 \<le> n"
  shows "writeCallStack_loop g st m n True lvl walo (Some e) =
     (let em = filter (\<lambda>f. withSystem e \<or> \<not> prefix g (fst f))
                 (drop (nat n) (visited_frames st m))
      in if \<exists>f\<in>set em. fst f = [] then Inl IndexOutOfRange
         else Inr (walo \<or> em \<noteq> [],
                   Some (e\<lparr>txtbuf := txtbuf e
                       @ concat (map (field_text (keyStart e) (keyEnd e)) (frame_fields lvl em))\<rparr>)))"
  using assms
proof (induction "nat (m - n)" arbitrary: n lvl walo e)
  case 0
  then have "\<not> n < m" by simp
  then show ?case
    using "0.prems" by (simp add: loop_stop drop_visited_Nil)
next
  case (Suc k)
  then have nm: "n < m" and n0: "0 \<le> n" by simp_all
  have k: "k = nat (m - (n + 1))" using Suc.hyps(2) by simp
  have n1: "0 \<le> n + 1" using n0 by simp
  show ?case
  proof (cases "n + blammoLevels < int (length st)")
    case False
    then show ?thesis
      using n0 nm by (simp add: loop_exhausted drop_visited_Nil)
  next
    case True
    let ?f = "st ! nat (n + blammoLevels)"
    let ?rest = "drop (nat (n + 1)) (visited_frames st m)"
    have dv: "drop (nat n) (visited_frames st m) = ?f # ?rest"
      using n0 nm True by (rule drop_visited_Cons)
    show ?thesis
    proof (cases "withSystem e \<or> \<not> prefix g (fst ?f)")
      case False
      have step: "writeCallStack_loop g st m n True lvl walo (Some e)
              = writeCallStack_loop g st m (n + 1) True lvl walo (Some e)"
        using n0 nm True False by (rule loop_skip)
      show ?thesis
        unfolding step Suc.hyps(1) [OF k n1, of lvl walo e] dv
        using False by simp
    next
      case pass: True
      show ?thesis
      proof (cases "fst ?f = []")
        case True
        have "writeCallStack_loop g st m n True lvl walo (Some e) = Inl IndexOutOfRange"
          using n0 nm \<open>n + blammoLevels < int (length st)\<close> pass True by (rule loop_panic)
        then show ?thesis using pass True by (simp add: dv)
      next
        case False
        let ?e1 = "e\<lparr>txtbuf := txtbuf e
                    @ concat (map (field_text (keyStart e) (keyEnd e)) (frame_fields lvl [?f]))\<rparr>"
        have step: "writeCallStack_loop g st m n True lvl walo (Some e)
                = writeCallStack_loop g st m (n + 1) True (lvl + 1) True (Some ?e1)"
          using n0 nm True pass False by (rule loop_emit)
        show ?thesis
          unfolding step Suc.hyps(1) [OF k n1, of "lvl + 1" True ?e1] dv
          using pass False by (simp add: Let_def)
      qed
    qed
  qed
qed

lemma writeCallStack_char:
  assumes "maxlevels \<noteq> 0"
  shows "writeCallStack rt stack (Some e) maxlevels =
     (if \<exists>f\<in>set (emitted_frames (withSystem e) (GOROOT rt) stack maxlevels). fst f = []
      then Inl IndexOutOfRange
      else Inr (Some (e\<lparr>txtbuf := txtbuf e
             @ concat (map (field_text (keyStart e) (keyEnd e))
                 (stack_fields (withSystem e) (GOROOT rt) stack maxlevels))\<rparr>)))"
  using assms
  by (simp add: writeCallStack_def loop_char emitted_frames_def stack_fields_def Let_def
        Str_Some)


lemma length_frame_fields: "length (frame_fields lvl fs) = 2 * length fs"
  by (induction fs arbitrary: lvl) simp_all

lemma string_of_rune_digit:
  assumes "j < 10"
  shows "string_of_rune (0x30 + of_nat j) = [digit_char j]"
proof -
  have "unat (0x30 + of_nat j :: 32 word) = 48 + j"
    using assms by (simp add: unat_word_ariths unat_of_nat)
  then show ?thesis using assms by (simp add: string_of_rune_def digit_char_def)
qed



section \<open>Properties of call chains\<close>

lemma writeCallStack_Inr:
  assumes "writeCallStack rt stack (Some e) maxlevels = Inr ev"
  shows "ev = Some (e\<lparr>txtbuf := txtbuf e
             @ concat (map (field_text (keyStart e) (keyEnd e))
                 (stack_fields (withSystem e) (GOROOT rt) stack maxlevels))\<rparr>)"
proof (cases "maxlevels = 0")
  case True
  then show ?thesis using assms by (simp add: writeCallStack_def stack_fields_def)
next
  case False
  show ?thesis
    using assms unfolding writeCallStack_char [OF False] by (simp split: if_splits)
qed

lemma build1_Inr:
  assumes "build1 rt b (Some e) = Inr ev"
  shows "ev = Some (e\<lparr>txtbuf := txtbuf e
             @ concat (map (field_text (keyStart e) (keyEnd e))
                 (builder_fields rt (withSystem e) (callLevels e) b))\<rparr>)"
proof (cases b)
  case (Field f)
  then show ?thesis using assms by (simp add: set_field_Some)
next
  case (CLine stack)
  then show ?thesis using assms writeCallStack_Inr [of rt stack e 1 ev] by (simp add: Line_def)
next
  case (CCaller stack)
  then show ?thesis using assms writeCallStack_Inr [of rt stack e 2 ev] by (simp add: Caller_def)
next
  case (CCallStack stack)
  then show ?thesis
    using assms writeCallStack_Inr [of rt stack e "callLevels e" ev] by (simp add: CallStack_def)
qed

lemma build_Inr:
  assumes "build rt bs (Some e) = Inr ev"
  shows "ev = Some (e\<lparr>txtbuf := txtbuf e
             @ concat (map (field_text (keyStart e) (keyEnd e))
                 (concat (map (builder_fields rt (withSystem e) (callLevels e)) bs)))\<rparr>)"
  using assms
proof (induction bs arbitrary: e)
  case Nil
  then show ?case by simp
next
  case (Cons b bs)
  from Cons.prems obtain ev1 where b1: "build1 rt b (Some e) = Inr ev1"
    and rest: "build rt bs ev1 = Inr ev"
    by (auto split: sum.splits)
  let ?e1 = "e\<lparr>txtbuf := txtbuf e
             @ concat (map (field_text (keyStart e) (keyEnd e))
                 (builder_fields rt (withSystem e) (callLevels e) b))\<rparr>"
  have ev1: "ev1 = Some ?e1" using b1 by (rule build1_Inr)
  from Cons.IH [of ?e1] rest ev1 show ?case by simp
qed

lemma newEvent_Some:
  "newEvent rt l (Some w) tg s
     = (Some ((fst (pool_Get s))\<lparr>keyStart := KeyStart l, keyEnd := KeyEnd l, out := Some w,
                 txtbuf := line_prefix rt l tg,
                 msgpos := int (length (line_prefix rt l tg)),
                 callLevels := MaxCallLevels l, withSystem := IncludeSystemFiles l\<rparr>),
        snd (pool_Get s))"
  by (simp add: newEvent_def line_prefix_def Let_def split: prod.split)

lemma written_pool_Get: "written (snd (pool_Get s)) = written s"
  by (simp add: pool_Get_def split: list.split)

text \<open>
  Claim C9. A builder method that returns on a real event returns that event with
  \<open>msgpos\<close> as it was and with a buffer that is the old buffer followed by what the
  method appended. For an event a Logger method created, \<open>msgpos\<close> is the length of
  the timestamp-and-tag prefix, and after any chain of builder methods it still is,
  the bytes before it still being that prefix.
\<close>

theorem msgpos_is_fixed_at_creation:
  "(build1 rt b (Some e) = Inr ev1 \<longrightarrow>
      (\<exists>e1 suf. ev1 = Some e1 \<and> msgpos e1 = msgpos e \<and> txtbuf e1 = txtbuf e @ suf))
   \<and> (newEvent rt l (Some w) tg s = (ev0, s0) \<and> build rt bs ev0 = Inr ev \<longrightarrow>
      (\<exists>e0 e2 suf. ev0 = Some e0 \<and> ev = Some e2
         \<and> msgpos e0 = int (length (line_prefix rt l tg)) \<and> txtbuf e0 = line_prefix rt l tg
         \<and> msgpos e2 = msgpos e0 \<and> txtbuf e2 = txtbuf e0 @ suf
         \<and> take (nat (msgpos e2)) (txtbuf e2) = line_prefix rt l tg))"
proof (intro conjI impI)
  assume "build1 rt b (Some e) = Inr ev1"
  from build1_Inr [OF this]
  show "\<exists>e1 suf. ev1 = Some e1 \<and> msgpos e1 = msgpos e \<and> txtbuf e1 = txtbuf e @ suf"
    by simp
next
  assume a: "newEvent rt l (Some w) tg s = (ev0, s0) \<and> build rt bs ev0 = Inr ev"
  define e0 where "e0 = (fst (pool_Get s))\<lparr>keyStart := KeyStart l, keyEnd := KeyEnd l, out := Some w,
                 txtbuf := line_prefix rt l tg,
                 msgpos := int (length (line_prefix rt l tg)),
                 callLevels := MaxCallLevels l, withSystem := IncludeSystemFiles l\<rparr>"
  have ev0: "ev0 = Some e0" using a by (simp add: newEvent_Some e0_def)
  with a have "build rt bs (Some e0) = Inr ev" by simp
  from build_Inr [OF this] show "\<exists>e0 e2 suf. ev0 = Some e0 \<and> ev = Some e2
         \<and> msgpos e0 = int (length (line_prefix rt l tg)) \<and> txtbuf e0 = line_prefix rt l tg
         \<and> msgpos e2 = msgpos e0 \<and> txtbuf e2 = txtbuf e0 @ suf
         \<and> take (nat (msgpos e2)) (txtbuf e2) = line_prefix rt l tg"
    using ev0 by (simp add: e0_def)
qed

lemma assign_at_last:
  assumes "xs \<noteq> []"
  shows "assign_at xs (int (length xs) - 1) v = Inr (butlast xs @ [v])"
proof -
  obtain ys y where xs: "xs = ys @ [y]" using assms by (metis rev_exhaust)
  have "nat (int (length xs) - 1) = length ys" by (simp add: xs)
  then show ?thesis by (simp add: assign_at_def xs)
qed

lemma Msg_Some:
  assumes "msgpos e = int (length pre)" and "txtbuf e = pre @ flds" and "out e = Some w"
  shows "Msg (Some e) m s
           = Inr (Some (e\<lparr>txtbuf := line_text pre m flds\<rparr>),
                  pool_Put (e\<lparr>txtbuf := line_text pre m flds\<rparr>)
                    (s\<lparr>written := written s @ [(w, line_text pre m flds)]\<rparr>))"
proof -
  have sp: "splice' (txtbuf e) (m @ '' '') (msgpos e) = Inr (pre @ (m @ '' '') @ flds)"
    using splice_nonempty [of "msgpos e" "txtbuf e" "m @ '' ''"] assms(1,2) by simp
  have asg: "assign_at (pre @ (m @ '' '') @ flds) (int (length (pre @ (m @ '' '') @ flds)) - 1)
               (CHR 0x0A) = Inr (line_text pre m flds)"
    using assign_at_last [of "pre @ (m @ '' '') @ flds" "CHR 0x0A"]
    by (simp add: line_text_def)
  show ?thesis
    unfolding Msg_def Let_def option.case sp sum.case asg
    using assms(3) by simp
qed

lemma field_text_ends_with_space: "field_text ks ke kv = butlast (field_text ks ke kv) @ '' ''"
  by (simp add: field_text_def butlast_append)

lemma line_text_with_fields:
  assumes "kvs \<noteq> []"
  shows "line_text pre m (concat (map (field_text ks ke) kvs))
           = pre @ m @ '' '' @ butlast (concat (map (field_text ks ke) kvs)) @ [CHR 0x0A]"
proof -
  obtain ys y where kvs: "kvs = ys @ [y]" using assms by (metis rev_exhaust)
  have "concat (map (field_text ks ke) kvs) \<noteq> []"
    by (simp add: kvs field_text_def)
  then show ?thesis by (simp add: line_text_def butlast_append)
qed

lemma line_text_no_fields: "line_text pre m [] = pre @ m @ [CHR 0x0A]"
  by (simp add: line_text_def butlast_append)

text \<open>
  Claim C2. On a real event whose buffer is the prefix followed by fields, with
  \<open>msgpos\<close> at the end of the prefix, \<open>Msg(M)\<close> writes, once and to the event's
  destination, the prefix, \<open>M\<close>, a space and the fields, the final byte being replaced
  by a newline. For the event of a Logger method followed by any chain of builder
  calls that returns, the fields are those of the calls in the order of the calls,
  so that the bytes written are the timestamp and tag, the message, and then the
  fields in call order.
\<close>

theorem message_is_spliced_before_fields:
  "(msgpos e = int (length pre)
      \<and> txtbuf e = pre @ concat (map (field_text (keyStart e) (keyEnd e)) kvs)
      \<and> out e = Some w \<longrightarrow>
      (\<exists>e1 s1. Msg (Some e) m s = Inr (Some e1, s1)
         \<and> written s1 = written s
              @ [(w, line_text pre m (concat (map (field_text (keyStart e) (keyEnd e)) kvs)))]))
   \<and> (newEvent rt l (Some w) tg s = (ev0, s0) \<and> build rt bs ev0 = Inr ev \<longrightarrow>
      (\<exists>e2 s2. Msg ev m s0 = Inr (Some e2, s2)
         \<and> written s2 = written s
              @ [(w, line_text (line_prefix rt l tg) m
                      (concat (map (field_text (KeyStart l) (KeyEnd l))
                         (concat (map (builder_fields rt (IncludeSystemFiles l) (MaxCallLevels l))
                                    bs)))))]))"
proof (intro conjI impI)
  assume a: "msgpos e = int (length pre)
      \<and> txtbuf e = pre @ concat (map (field_text (keyStart e) (keyEnd e)) kvs)
      \<and> out e = Some w"
  then have "Msg (Some e) m s
           = Inr (Some (e\<lparr>txtbuf := line_text pre m (concat (map (field_text (keyStart e) (keyEnd e)) kvs))\<rparr>),
                  pool_Put (e\<lparr>txtbuf := line_text pre m (concat (map (field_text (keyStart e) (keyEnd e)) kvs))\<rparr>)
                    (s\<lparr>written := written s @ [(w, line_text pre m (concat (map (field_text (keyStart e) (keyEnd e)) kvs)))]\<rparr>))"
    by (intro Msg_Some) simp_all
  then show "\<exists>e1 s1. Msg (Some e) m s = Inr (Some e1, s1)
         \<and> written s1 = written s
              @ [(w, line_text pre m (concat (map (field_text (keyStart e) (keyEnd e)) kvs)))]"
    by (simp add: pool_Put_def)
next
  assume a: "newEvent rt l (Some w) tg s = (ev0, s0) \<and> build rt bs ev0 = Inr ev"
  define e0 where "e0 = (fst (pool_Get s))\<lparr>keyStart := KeyStart l, keyEnd := KeyEnd l, out := Some w,
                 txtbuf := line_prefix rt l tg,
                 msgpos := int (length (line_prefix rt l tg)),
                 callLevels := MaxCallLevels l, withSystem := IncludeSystemFiles l\<rparr>"
  define F where "F = concat (map (field_text (KeyStart l) (KeyEnd l))
                         (concat (map (builder_fields rt (IncludeSystemFiles l) (MaxCallLevels l)) bs)))"
  have ev0: "ev0 = Some e0" and s0: "s0 = snd (pool_Get s)"
    using a by (simp_all add: newEvent_Some e0_def)
  with a have "build rt bs (Some e0) = Inr ev" by simp
  from build_Inr [OF this] have ev: "ev = Some (e0\<lparr>txtbuf := line_prefix rt l tg @ F\<rparr>)"
    by (simp add: e0_def F_def)
  let ?e = "e0\<lparr>txtbuf := line_prefix rt l tg @ F\<rparr>"
  have "Msg (Some ?e) m s0
           = Inr (Some (?e\<lparr>txtbuf := line_text (line_prefix rt l tg) m F\<rparr>),
                  pool_Put (?e\<lparr>txtbuf := line_text (line_prefix rt l tg) m F\<rparr>)
                    (s0\<lparr>written := written s0 @ [(w, line_text (line_prefix rt l tg) m F)]\<rparr>))"
    by (intro Msg_Some) (simp_all add: e0_def)
  then show "\<exists>e2 s2. Msg ev m s0 = Inr (Some e2, s2)
         \<and> written s2 = written s
              @ [(w, line_text (line_prefix rt l tg) m
                      (concat (map (field_text (KeyStart l) (KeyEnd l))
                         (concat (map (builder_fields rt (IncludeSystemFiles l) (MaxCallLevels l))
                                    bs)))))]"
    unfolding F_def [symmetric] by (simp add: ev s0 pool_Put_def written_pool_Get)
qed

lemma example_newEvent:
  "newEvent example_runtime NewPipeLogger (Some stdout) ''[INFO ] '' fresh_world
     = (Some info_event, fresh_world)"
  by code_simp

lemma example_build:
  "build example_runtime [Field (FInt ''x'' 6), CLine example_stack] (Some info_event)
     = Inr (Some info_event_with_fields)"
  by code_simp

lemma example_build1:
  "build1 example_runtime (CLine example_stack) (Some example_event)
     = Inr (Some (example_event\<lparr>txtbuf := ''[INFO ] @file_0=app/main.go @line_0=12 ''\<rparr>))"
  by code_simp

theorem message_is_spliced_before_fields_witness:
  "(\<exists>e1 s1. Msg (Some (example_event\<lparr>txtbuf := ''[INFO ] k=v w n=5 ''\<rparr>)) ''hello'' fresh_world
               = Inr (Some e1, s1)
       \<and> written s1 = [(stdout, ''[INFO ] hello k=v w n=5\<newline>'')])
   \<and> (\<exists>e2 s2. Msg (Some info_event_with_fields) ''Example program starting'' fresh_world
               = Inr (Some e2, s2)
       \<and> written s2 = [(stdout,
            ''2026-11-01 12:00:00 [INFO ] Example program starting x=6 @file_0=app/main.go @line_0=12\<newline>'')])"
proof -
  let ?e = "example_event\<lparr>txtbuf := ''[INFO ] k=v w n=5 ''\<rparr>"
  have h1: "msgpos ?e = int (length ''[INFO ] '')
      \<and> txtbuf ?e = ''[INFO ] '' @ concat (map (field_text (keyStart ?e) (keyEnd ?e))
                                          [(''k'', ''v w''), (''n'', ''5'')])
      \<and> out ?e = Some stdout"
    by code_simp
  have r1: "written fresh_world
              @ [(stdout, line_text ''[INFO ] '' ''hello''
                    (concat (map (field_text (keyStart ?e) (keyEnd ?e))
                                          [(''k'', ''v w''), (''n'', ''5'')])))]
            = [(stdout, ''[INFO ] hello k=v w n=5\<newline>'')]"
    by code_simp
  have h2: "newEvent example_runtime NewPipeLogger (Some stdout) ''[INFO ] '' fresh_world
              = (Some info_event, fresh_world)
            \<and> build example_runtime [Field (FInt ''x'' 6), CLine example_stack] (Some info_event)
              = Inr (Some info_event_with_fields)"
    using example_newEvent example_build by (rule conjI)
  have r2: "written fresh_world
              @ [(stdout, line_text (line_prefix example_runtime NewPipeLogger ''[INFO ] '')
                    ''Example program starting''
                    (concat (map (field_text (KeyStart NewPipeLogger) (KeyEnd NewPipeLogger))
                       (concat (map (builder_fields example_runtime
                                       (IncludeSystemFiles NewPipeLogger)
                                       (MaxCallLevels NewPipeLogger))
                                  [Field (FInt ''x'' 6), CLine example_stack])))))]
            = [(stdout,
            ''2026-11-01 12:00:00 [INFO ] Example program starting x=6 @file_0=app/main.go @line_0=12\<newline>'')]"
    by code_simp
  note t1 = message_is_spliced_before_fields
    [where e = "example_event\<lparr>txtbuf := ''[INFO ] k=v w n=5 ''\<rparr>" and pre = "''[INFO ] ''"
       and kvs = "[(''k'', ''v w''), (''n'', ''5'')]" and w = stdout and m = "''hello''"
       and s = fresh_world]
  note t2 = message_is_spliced_before_fields
    [where rt = example_runtime and l = NewPipeLogger and w = stdout and tg = "''[INFO ] ''"
       and s = fresh_world and ?ev0.0 = "Some info_event" and ?s0.0 = fresh_world
       and bs = "[Field (FInt ''x'' 6), CLine example_stack]"
       and ev = "Some info_event_with_fields" and m = "''Example program starting''"]
  have c1: "\<exists>e1 s1. Msg (Some ?e) ''hello'' fresh_world = Inr (Some e1, s1)
       \<and> written s1 = [(stdout, ''[INFO ] hello k=v w n=5\<newline>'')]"
    using t1 [THEN conjunct1, THEN mp, OF h1] unfolding r1 .
  have c2: "\<exists>e2 s2. Msg (Some info_event_with_fields) ''Example program starting'' fresh_world
               = Inr (Some e2, s2)
       \<and> written s2 = [(stdout,
            ''2026-11-01 12:00:00 [INFO ] Example program starting x=6 @file_0=app/main.go @line_0=12\<newline>'')]"
    using t2 [THEN conjunct2, THEN mp, OF h2] unfolding r2 .
  from c1 c2 show ?thesis by (rule conjI)
qed

theorem msgpos_is_fixed_at_creation_witness:
  "(\<exists>e1 suf. build1 example_runtime (CLine example_stack) (Some example_event) = Inr (Some e1)
       \<and> msgpos e1 = msgpos example_event \<and> txtbuf e1 = txtbuf example_event @ suf)
   \<and> (\<exists>suf. msgpos info_event = 28 \<and> txtbuf info_event = ''2026-11-01 12:00:00 [INFO ] ''
       \<and> msgpos info_event_with_fields = msgpos info_event
       \<and> txtbuf info_event_with_fields = txtbuf info_event @ suf
       \<and> take (nat (msgpos info_event_with_fields)) (txtbuf info_event_with_fields)
            = ''2026-11-01 12:00:00 [INFO ] '')"
proof -
  have h2: "newEvent example_runtime NewPipeLogger (Some stdout) ''[INFO ] '' fresh_world
              = (Some info_event, fresh_world)
            \<and> build example_runtime [Field (FInt ''x'' 6), CLine example_stack] (Some info_event)
              = Inr (Some info_event_with_fields)"
    using example_newEvent example_build by (rule conjI)
  have lp: "line_prefix example_runtime NewPipeLogger ''[INFO ] '' = ''2026-11-01 12:00:00 [INFO ] ''"
    by code_simp
  have len: "int (length ''2026-11-01 12:00:00 [INFO ] '') = 28" by simp
  note ta = msgpos_is_fixed_at_creation
    [where rt = example_runtime and b = "CLine example_stack" and e = example_event
       and ?ev1.0 = "Some (example_event\<lparr>txtbuf := ''[INFO ] @file_0=app/main.go @line_0=12 ''\<rparr>)"]
  note tb = msgpos_is_fixed_at_creation
    [where rt = example_runtime and l = NewPipeLogger and w = stdout and tg = "''[INFO ] ''"
       and s = fresh_world and ?ev0.0 = "Some info_event" and ?s0.0 = fresh_world
       and bs = "[Field (FInt ''x'' 6), CLine example_stack]"
       and ev = "Some info_event_with_fields"]
  from ta [THEN conjunct1, THEN mp, OF example_build1]
  obtain e1 suf1 where g:
    "Some (example_event\<lparr>txtbuf := ''[INFO ] @file_0=app/main.go @line_0=12 ''\<rparr>) = Some e1"
    "msgpos e1 = msgpos example_event" "txtbuf e1 = txtbuf example_event @ suf1"
    by blast
  have c1: "\<exists>e1 suf. build1 example_runtime (CLine example_stack) (Some example_event) = Inr (Some e1)
       \<and> msgpos e1 = msgpos example_event \<and> txtbuf e1 = txtbuf example_event @ suf"
    using example_build1 g by blast
  from tb [THEN conjunct2, THEN mp, OF h2]
  obtain e0 e2 suf where f:
    "Some info_event = Some e0" "Some info_event_with_fields = Some e2"
    "msgpos e0 = int (length (line_prefix example_runtime NewPipeLogger ''[INFO ] ''))"
    "txtbuf e0 = line_prefix example_runtime NewPipeLogger ''[INFO ] ''"
    "msgpos e2 = msgpos e0" "txtbuf e2 = txtbuf e0 @ suf"
    "take (nat (msgpos e2)) (txtbuf e2) = line_prefix example_runtime NewPipeLogger ''[INFO ] ''"
    by blast
  have e0: "e0 = info_event" and e2: "e2 = info_event_with_fields"
    using f(1,2) by simp_all
  have c2: "\<exists>suf. msgpos info_event = 28 \<and> txtbuf info_event = ''2026-11-01 12:00:00 [INFO ] ''
       \<and> msgpos info_event_with_fields = msgpos info_event
       \<and> txtbuf info_event_with_fields = txtbuf info_event @ suf
       \<and> take (nat (msgpos info_event_with_fields)) (txtbuf info_event_with_fields)
            = ''2026-11-01 12:00:00 [INFO ] ''"
    using f(3-7) unfolding e0 e2 lp len by blast
  from c1 c2 show ?thesis by (rule conjI)
qed

section \<open>Numbers as text\<close>

lemma digit_val_digit_char: "d < 10 \<Longrightarrow> digit_val (digit_char d) = Some d"
  by (simp add: digit_val_def digit_char_def Let_def)

lemma digits10_not_Nil: "digits10 n \<noteq> []"
  by (subst digits10.simps) simp

lemma foldl_parse_digits10: "foldl parse_step (Some 0) (digits10 n) = Some n"
proof (induction n rule: digits10.induct)
  case (1 n)
  show ?case
  proof (cases "n < 10")
    case True
    then show ?thesis
      by (subst digits10.simps) (simp add: parse_step_def digit_val_digit_char)
  next
    case False
    have "foldl parse_step (Some 0) (digits10 n)
            = parse_step (foldl parse_step (Some 0) (digits10 (n div 10))) (digit_char (n mod 10))"
      using False by (subst digits10.simps) simp
    also have "\<dots> = Some (10 * (n div 10) + n mod 10)"
      unfolding "1.IH" [OF False] by (simp add: parse_step_def digit_val_digit_char)
    finally show ?thesis by simp
  qed
qed

lemma ParseUint_digits10: "ParseUint (digits10 n) = Some n"
  by (simp add: ParseUint_def digits10_not_Nil foldl_parse_digits10)

lemma digits10_no_minus: "hd (digits10 n) \<noteq> CHR ''-''"
proof (induction n rule: digits10.induct)
  case (1 n)
  show ?case
  proof (cases "n < 10")
    case True
    have "of_char (digit_char n) \<noteq> (45 :: nat)" using True by (simp add: digit_char_def)
    then have "digit_char n \<noteq> CHR ''-''" by auto
    with True show ?thesis by (subst digits10.simps) simp
  next
    case False
    with "1.IH" show ?thesis
      by (subst digits10.simps) (simp add: digits10_not_Nil)
  qed
qed

lemma ParseInt_FormatInt: "ParseInt (FormatInt i) = Some i"
proof (cases "i < 0")
  case True
  then show ?thesis by (simp add: ParseInt_def FormatInt_def ParseUint_digits10)
next
  case False
  obtain c r where d: "digits10 (nat i) = c # r"
    using digits10_not_Nil [of "nat i"] by (cases "digits10 (nat i)") auto
  have "c \<noteq> CHR ''-''" using digits10_no_minus [of "nat i"] d by simp
  moreover have "ParseUint (c # r) = Some (nat i)"
    using ParseUint_digits10 [of "nat i"] d by simp
  ultimately show ?thesis using False d by (simp add: ParseInt_def FormatInt_def)
qed

text \<open>
  The integer setters round-trip: the text each appends for a value parses back to
  that value, at every width.
\<close>

lemma unsigned_text_round_trip:
  "map_option word_of_nat (ParseUint (field_value rt (FUint8 k v8))) = Some v8"
  "map_option word_of_nat (ParseUint (field_value rt (FUint16 k v16))) = Some v16"
  "map_option word_of_nat (ParseUint (field_value rt (FUint32 k v32))) = Some v32"
  "map_option word_of_nat (ParseUint (field_value rt (FUint64 k v64))) = Some v64"
  by (simp_all add: ParseUint_digits10)

lemma signed_text_round_trip:
  "map_option word_of_int (ParseInt (field_value rt (FInt k v))) = Some v"
  "map_option word_of_int (ParseInt (field_value rt (FInt8 k v8))) = Some v8"
  "map_option word_of_int (ParseInt (field_value rt (FInt16 k v16))) = Some v16"
  "map_option word_of_int (ParseInt (field_value rt (FInt32 k v32))) = Some v32"
  "map_option word_of_int (ParseInt (field_value rt (FInt64 k v64))) = Some v64"
  by (simp_all add: ParseInt_FormatInt)

text \<open>
  Claim C5. The integer half of the claim holds (the two lemmas above). The float
  half fails for \<open>Float64\<close>: it formats its argument with \<open>bitSize = 32\<close>, as
  \<open>Float32\<close> does, so the text is the shortest decimal that identifies the value
  rounded to a 32-bit float, not the 64-bit value it was given.
\<close>

theorem Float64_formats_with_bitSize_32:
  "Float64 rt (Some e) k f
     = Some (e\<lparr>txtbuf := txtbuf e @ keyStart e @ k @ keyEnd e @ ''=''
                              @ AppendFloat rt f CHR ''G'' (- 1) 32 @ '' ''\<rparr>)
   \<and> Float32 rt (Some e) k g
     = Some (e\<lparr>txtbuf := txtbuf e @ keyStart e @ k @ keyEnd e @ ''=''
                              @ AppendFloat rt (float64_of_float32 rt g) CHR ''G'' (- 1) 32 @ '' ''\<rparr>)"
  by (simp add: Float64_def Float32_def appendKey_txtbuf)

end
